theory Spec2Isabelle
  imports Complex_Main "HOL-Library.Multiset" "HOL-Library.Char_ord" "HOL-Library.List_Lexorder"
begin

section \<open>Values, task ids, outcomes\<close>

text \<open>
  Embedding of \<^verbatim>\<open>saber/utils/parallelization.py\<close> (class \<^verbatim>\<open>GPUPool\<close> and
  \<^verbatim>\<open>gpu_map\<close>). Task payloads are Python values; only the shapes the
  partitioner inspects with \<^verbatim>\<open>isinstance\<close> are distinguished, every other
  object is an opaque handle.
\<close>

datatype pyval =
    VNone
  | VBool bool
  | VInt int
  | VStr string
  | VTuple "pyval list"
  | VList "pyval list"
  | VDict "(pyval \<times> pyval) list"
  | VObj nat

type_synonym kwargs = "(pyval \<times> pyval) list"

text \<open>
  Task ids: the ids the source itself produces are the integers of
  \<^verbatim>\<open>range(len(tasks))\<close> and the string \<^verbatim>\<open>'INIT_FAILED'\<close>; callers may
  pass ids of either kind.
\<close>

datatype task_id = IdInt int | IdStr string

text \<open>An Outcome is a Python dict with string keys; the values are of several kinds.\<close>

datatype oval =
    OBool bool
  | OId task_id
  | ODev nat
  | OTime real
  | OVal pyval
  | OErr string

type_synonym outcome = "(string \<times> oval) list"

datatype error =
    Raised string
  | TypeError
  | ValueError
  | ZeroDivisionError
  | KeyError
  | AttributeError

text \<open>
  The work function \<^verbatim>\<open>func(*args, **kwargs)\<close> and the initializer are external:
  \<open>Inl msg\<close> is an \<^verbatim>\<open>Exception\<close> raised by the callback, \<open>msg\<close> being
  \<^verbatim>\<open>str(e)\<close>. The timer gives the difference of the two \<^verbatim>\<open>time.time()\<close>
  readings taken around a call.
\<close>

type_synonym work_fn = "pyval \<Rightarrow> kwargs \<Rightarrow> string + pyval"
type_synonym timer = "pyval \<Rightarrow> kwargs \<Rightarrow> real"
type_synonym init_cb = "nat \<Rightarrow> string + pyval"

section \<open>Dict helpers\<close>

fun dict_set :: "'k \<Rightarrow> 'v \<Rightarrow> ('k \<times> 'v) list \<Rightarrow> ('k \<times> 'v) list" where
  "dict_set k v [] = [(k, v)]"
| "dict_set k v ((k', v') # d) =
     (if k' = k then (k, v) # d else (k', v') # dict_set k v d)"

definition dict_get :: "('k \<times> 'v) list \<Rightarrow> 'k \<Rightarrow> 'v option" where
  "dict_get d k = map_of d k"

definition has_key :: "('k \<times> 'v) list \<Rightarrow> 'k \<Rightarrow> bool" where
  "has_key d k = (k \<in> set (map fst d))"

section \<open>Task Partitioner: payload normalization\<close>

fun isinstance_dict :: "pyval \<Rightarrow> bool" where
  "isinstance_dict (VDict d) = True"
| "isinstance_dict v = False"

fun isinstance_tuple :: "pyval \<Rightarrow> bool" where
  "isinstance_tuple (VTuple xs) = True"
| "isinstance_tuple v = False"

fun isinstance_list :: "pyval \<Rightarrow> bool" where
  "isinstance_list (VList xs) = True"
| "isinstance_list v = False"

fun seq_items :: "pyval \<Rightarrow> pyval list" where
  "seq_items (VTuple xs) = xs"
| "seq_items (VList xs) = xs"
| "seq_items v = []"

fun dict_items :: "pyval \<Rightarrow> kwargs" where
  "dict_items (VDict d) = d"
| "dict_items v = []"

text \<open>
  The \<^verbatim>\<open>if/elif\<close> chain of \<^verbatim>\<open>_execute_threading\<close> (lines 142-149). The second
  test is only evaluated left to right, so \<open>seq_items task ! 1\<close> is read on a tuple
  of length 2 only.
\<close>

definition normalize_threading :: "pyval \<Rightarrow> pyval \<times> kwargs" where
  "normalize_threading task =
     (if isinstance_dict task then (VTuple [], dict_items task)
      else if isinstance_tuple task \<and> length (seq_items task) = 2
              \<and> isinstance_dict (seq_items task ! 1)
        then (seq_items task ! 0, dict_items (seq_items task ! 1))
      else if isinstance_list task \<or> isinstance_tuple task then (task, [])
      else (VTuple [task], []))"

text \<open>The same chain as written in \<^verbatim>\<open>_execute_multiprocessing\<close> (lines 293-300).\<close>

definition normalize_multiprocessing :: "pyval \<Rightarrow> pyval \<times> kwargs" where
  "normalize_multiprocessing task =
     (if isinstance_dict task then (VTuple [], dict_items task)
      else if isinstance_tuple task \<and> length (seq_items task) = 2
              \<and> isinstance_dict (seq_items task ! 1)
        then (seq_items task ! 0, dict_items (seq_items task ! 1))
      else if isinstance_list task \<or> isinstance_tuple task then (task, [])
      else (VTuple [task], []))"

text \<open>
  The normalization rules in the words of the specification: a mapping; a 2-element
  sequence (list or tuple) whose second element is a mapping; any other sequence; any
  other value.
\<close>

definition is_sequence :: "pyval \<Rightarrow> bool" where
  "is_sequence v = (isinstance_list v \<or> isinstance_tuple v)"

definition spec_normalize :: "pyval \<Rightarrow> pyval \<times> kwargs" where
  "spec_normalize payload =
     (if isinstance_dict payload then (VTuple [], dict_items payload)
      else if is_sequence payload \<and> length (seq_items payload) = 2
              \<and> isinstance_dict (seq_items payload ! 1)
        then (seq_items payload ! 0, dict_items (seq_items payload ! 1))
      else if is_sequence payload then (payload, [])
      else (VTuple [payload], []))"

section \<open>The pool object\<close>

text \<open>
  One process per device under the isolated strategy: not yet past its initializer,
  at the head of its task loop (with its private models and \<^verbatim>\<open>task_count\<close>), running
  the task it took from the queue, or finished.
\<close>

datatype worker =
    Starting
  | Looping pyval nat
  | Busy pyval nat "task_id \<times> work_fn \<times> pyval \<times> kwargs"
  | Exited

text \<open>A scheduling step of the isolated strategy: the caller's thread or process \<open>k\<close>
  of \<^verbatim>\<open>self.workers\<close>.\<close>

datatype event = Main | Worker nat

text \<open>
  An entry of \<^verbatim>\<open>task_queue\<close>: \<open>None\<close> is the shutdown sentinel, otherwise the
  tuple \<^verbatim>\<open>(task_id, func, args, kwargs)\<close>.
\<close>

type_synonym qitem = "(task_id \<times> work_fn \<times> pyval \<times> kwargs) option"

record pool =
  n_gpus :: nat
  init_fn :: "init_cb option"
  verbose :: bool
  approach :: string
  models :: "(nat \<times> pyval) list"
  initialized :: bool
  task_queue :: "qitem list"
  result_queue :: "outcome list"
  workers :: "(nat \<times> worker) list"
  shutdown_event :: bool
  started :: "bool option"

text \<open>
  \<^verbatim>\<open>model_locks\<close> is not a field of its own: the source stores a lock for a
  device in the statement after the one that stores its models, so both dicts have the
  same keys whenever they are read.

  \<^verbatim>\<open>GPUPool.__init__\<close>; \<open>device_count\<close> is what \<^verbatim>\<open>torch.cuda.device_count()\<close>
  returns. An entry of \<open>workers\<close> is a process with the device id it was started for.
  \<^verbatim>\<open>_init_threading\<close> does not create the attribute \<^verbatim>\<open>started\<close>: it is
  \<open>None\<close> on a threading pool and reading it there raises \<^verbatim>\<open>AttributeError\<close>.
  The other attributes of the strategy not chosen keep their empty values and are never
  read on that strategy.
\<close>

definition blank_pool :: "nat \<Rightarrow> string \<Rightarrow> init_cb option \<Rightarrow> bool \<Rightarrow> pool" where
  "blank_pool device_count appr ini verb =
     \<lparr> n_gpus = device_count, init_fn = ini, verbose = verb, approach = appr,
       models = [], initialized = False,
       task_queue = [], result_queue = [], workers = [],
       shutdown_event = False, started = None \<rparr>"

definition GPUPool_init :: "nat \<Rightarrow> string \<Rightarrow> init_cb option \<Rightarrow> bool \<Rightarrow> error + pool" where
  "GPUPool_init device_count appr ini verb =
     (if appr = ''threading'' then Inr (blank_pool device_count appr ini verb)
      else if appr = ''multiprocessing''
        then Inr ((blank_pool device_count appr ini verb)\<lparr> started := Some False \<rparr>)
      else Inl ValueError)"

section \<open>Shared (threading) strategy\<close>

text \<open>
  \<^verbatim>\<open>_initialize_models_threading\<close>: the loop over \<^verbatim>\<open>range(self.n_gpus)\<close>, here over
  the remaining device ids. An exception of the initializer leaves the loop and the
  method; what was stored before stays stored, and \<^verbatim>\<open>initialized\<close> is not set.
\<close>

fun load_models :: "nat list \<Rightarrow> pool \<Rightarrow> error option \<times> pool" where
  "load_models [] p = (None, p)"
| "load_models (gpu_id # rest) p =
     (case init_fn p of
        Some f \<Rightarrow>
          (case f gpu_id of
             Inl msg \<Rightarrow> (Some (Raised msg), p)
           | Inr m \<Rightarrow>
               load_models rest (p\<lparr> models := dict_set gpu_id m (models p) \<rparr>))
      | None \<Rightarrow> load_models rest (p\<lparr> models := dict_set gpu_id VNone (models p) \<rparr>))"

definition initialize_models_threading :: "pool \<Rightarrow> error option \<times> pool" where
  "initialize_models_threading p =
     (case load_models [0..<n_gpus p] p of
        (Some e, p') \<Rightarrow> (Some e, p')
      | (None, p') \<Rightarrow> (None, p'\<lparr> initialized := True \<rparr>))"

text \<open>
  \<^verbatim>\<open>worker_thread\<close>. The lock lookup \<^verbatim>\<open>self.model_locks[gpu_id]\<close> is outside the
  \<^verbatim>\<open>try\<close>: a device without an entry raises \<^verbatim>\<open>KeyError\<close> out of the worker.
\<close>

definition enhance :: "nat \<Rightarrow> pyval \<Rightarrow> kwargs \<Rightarrow> kwargs" where
  "enhance gpu_id m kw =
     (let kw1 = dict_set (VStr ''gpu_id'') (VInt (int gpu_id)) kw
      in if m \<noteq> VNone then dict_set (VStr ''models'') m kw1 else kw1)"

definition success_outcome :: "task_id \<Rightarrow> nat \<Rightarrow> real \<Rightarrow> pyval \<Rightarrow> outcome" where
  "success_outcome tid gpu_id t r =
     [(''success'', OBool True), (''task_id'', OId tid), (''gpu_id'', ODev gpu_id),
      (''processing_time'', OTime t), (''result'', OVal r)]"

definition failure_outcome :: "task_id \<Rightarrow> nat \<Rightarrow> string \<Rightarrow> outcome" where
  "failure_outcome tid gpu_id msg =
     [(''success'', OBool False), (''task_id'', OId tid), (''gpu_id'', ODev gpu_id),
      (''error'', OErr msg)]"

text \<open>
  The \<^verbatim>\<open>try\<close> statement around the call of the work function. It is written twice in
  the source, in \<^verbatim>\<open>worker_thread\<close> (lines 108-135) and in \<^verbatim>\<open>_worker_process\<close> (lines
  233-257), with the same statements: the keyword arguments are copied and extended
  with \<^verbatim>\<open>gpu_id\<close> and, when there are models, \<^verbatim>\<open>models\<close>; the result or the caught
  exception becomes the record.
\<close>

definition run_task :: "work_fn \<Rightarrow> timer \<Rightarrow> task_id \<Rightarrow> nat \<Rightarrow> pyval \<Rightarrow> pyval \<Rightarrow> kwargs \<Rightarrow> outcome" where
  "run_task func tm tid gpu_id m args kw =
     (let kw' = enhance gpu_id m kw
      in case func args kw' of
           Inr r \<Rightarrow> success_outcome tid gpu_id (tm args kw') r
         | Inl msg \<Rightarrow> failure_outcome tid gpu_id msg)"

definition worker_thread ::
  "pool \<Rightarrow> work_fn \<Rightarrow> timer \<Rightarrow> task_id \<times> nat \<times> pyval \<times> kwargs \<Rightarrow> error + outcome" where
  "worker_thread p func tm task_data =
     (case task_data of (tid, gpu_id, args, kw) \<Rightarrow>
        (case dict_get (models p) gpu_id of
           None \<Rightarrow> Inl KeyError
         | Some m \<Rightarrow> Inr (run_task func tm tid gpu_id m args kw)))"

text \<open>
  The preparation loop of \<^verbatim>\<open>_execute_threading\<close>: \<^verbatim>\<open>zip\<close> stops at the shorter
  list; \<^verbatim>\<open>i % self.n_gpus\<close> raises on the first pair when there is no device.
\<close>

definition prepare_tasks ::
  "nat \<Rightarrow> task_id list \<Rightarrow> pyval list \<Rightarrow> error + (task_id \<times> nat \<times> pyval \<times> kwargs) list" where
  "prepare_tasks n task_ids tasks =
     (if n = 0 \<and> zip task_ids tasks \<noteq> [] then Inl ZeroDivisionError
      else Inr (map (\<lambda>(i, tid, task). (tid, i mod n, normalize_threading task))
                  (List.enumerate 0 (zip task_ids tasks))))"

text \<open>
  \<^verbatim>\<open>as_completed\<close> yields every future once, in the order of completion. The order is
  not fixed by the program: each pick selects one of the futures still pending. Every
  order is admitted here, also those the thread pool cannot produce.
\<close>

fun as_completed :: "nat list \<Rightarrow> 'a list \<Rightarrow> 'a list" where
  "as_completed picks [] = []"
| "as_completed [] (x # xs) = x # xs"
| "as_completed (k # picks) (x # xs) =
     (let i = k mod length (x # xs)
      in (x # xs) ! i # as_completed picks (take i (x # xs) @ drop (Suc i) (x # xs)))"

text \<open>\<^verbatim>\<open>future.result()\<close> re-raises what the worker raised; the loop stops there.\<close>

fun collect_results :: "(error + outcome) list \<Rightarrow> error + outcome list" where
  "collect_results [] = Inr []"
| "collect_results (Inl e # rs) = Inl e"
| "collect_results (Inr r # rs) =
     (case collect_results rs of Inl e \<Rightarrow> Inl e | Inr out \<Rightarrow> Inr (r # out))"

definition execute_threading ::
  "nat list \<Rightarrow> work_fn \<Rightarrow> timer \<Rightarrow> pyval list \<Rightarrow> task_id list \<Rightarrow> pool
     \<Rightarrow> (error + outcome list) \<times> pool" where
  "execute_threading picks func tm tasks task_ids p =
     (case (if initialized p then (None, p) else initialize_models_threading p) of
        (Some e, p') \<Rightarrow> (Inl e, p')
      | (None, p') \<Rightarrow>
          (case prepare_tasks (n_gpus p') task_ids tasks of
             Inl e \<Rightarrow> (Inl e, p')
           | Inr prepared \<Rightarrow>
               if n_gpus p' = 0 then (Inl ValueError, p')
               else (collect_results
                       (as_completed picks (map (worker_thread p' func tm) prepared)), p')))"

section \<open>Isolated (multiprocessing) strategy\<close>

definition set_worker :: "nat \<Rightarrow> worker \<Rightarrow> pool \<Rightarrow> pool" where
  "set_worker k w p = p\<lparr> workers := (workers p)[k := (fst (workers p ! k), w)] \<rparr>"

definition put_result :: "outcome \<Rightarrow> pool \<Rightarrow> pool" where
  "put_result r p = p\<lparr> result_queue := result_queue p @ [r] \<rparr>"

text \<open>\<^verbatim>\<open>mp.Queue(maxsize=self.n_gpus * 2)\<close>; a maxsize of 0 means no bound.\<close>

definition queue_full :: "pool \<Rightarrow> bool" where
  "queue_full p = (n_gpus p \<noteq> 0 \<and> 2 * n_gpus p \<le> length (task_queue p))"

text \<open>
  One step of process \<open>k\<close> running \<^verbatim>\<open>_worker_process(gpu_id)\<close>: the initializer
  (an exception puts the \<^verbatim>\<open>INIT_FAILED\<close> record and ends the process); at the head
  of the \<^verbatim>\<open>while\<close> loop: leave when the shutdown event is set, poll again on an
  empty queue, leave on the sentinel, otherwise take the task and count it; with a task
  taken: run it and put its record. Taking a task and putting its record are separate
  steps, so the records of different devices can arrive in any order.
\<close>

definition worker_process_step :: "timer \<Rightarrow> nat \<Rightarrow> pool \<Rightarrow> pool" where
  "worker_process_step tm k p =
     (if length (workers p) \<le> k then p
      else case workers p ! k of
        (gpu_id, Starting) \<Rightarrow>
          (case init_fn p of
             None \<Rightarrow> set_worker k (Looping VNone 0) p
           | Some f \<Rightarrow>
               (case f gpu_id of
                  Inr m \<Rightarrow> set_worker k (Looping m 0) p
                | Inl msg \<Rightarrow>
                    put_result
                      (failure_outcome (IdStr ''INIT_FAILED'') gpu_id
                         (''Worker initialization failed: '' @ msg))
                      (set_worker k Exited p)))
      | (gpu_id, Looping m c) \<Rightarrow>
          (if shutdown_event p then set_worker k Exited p
           else case task_queue p of
             [] \<Rightarrow> p
           | None # q \<Rightarrow> set_worker k Exited (p\<lparr> task_queue := q \<rparr>)
           | Some item # q \<Rightarrow> set_worker k (Busy m (Suc c) item) (p\<lparr> task_queue := q \<rparr>))
      | (gpu_id, Busy m c (tid, func, args, kw)) \<Rightarrow>
          put_result (run_task func tm tid gpu_id m args kw) (set_worker k (Looping m c) p)
      | (gpu_id, Exited) \<Rightarrow> p)"

text \<open>
  The caller's side of \<^verbatim>\<open>_execute_multiprocessing\<close>: the items still to put on the
  bounded queue, the records read so far, and how many are read in all
  (\<^verbatim>\<open>range(len(tasks))\<close>). A step that would block changes nothing.
\<close>

record collector =
  pending :: "qitem list"
  got :: "outcome list"
  want :: nat

definition main_step :: "collector \<times> pool \<Rightarrow> collector \<times> pool" where
  "main_step cp =
     (case cp of (c, p) \<Rightarrow>
        (case pending c of
           item # rest \<Rightarrow>
             if queue_full p then (c, p)
             else (c\<lparr> pending := rest \<rparr>, p\<lparr> task_queue := task_queue p @ [item] \<rparr>)
         | [] \<Rightarrow>
             if length (got c) < want c then
               (case result_queue p of
                  [] \<Rightarrow> (c, p)
                | r # rq \<Rightarrow> (c\<lparr> got := got c @ [r] \<rparr>, p\<lparr> result_queue := rq \<rparr>))
             else (c, p)))"

fun run :: "timer \<Rightarrow> event list \<Rightarrow> collector \<times> pool \<Rightarrow> collector \<times> pool" where
  "run tm [] cp = cp"
| "run tm (Main # es) cp = run tm es (main_step cp)"
| "run tm (Worker k # es) cp = run tm es (fst cp, worker_process_step tm k (snd cp))"

definition returned :: "collector \<Rightarrow> bool" where
  "returned c = (pending c = [] \<and> want c \<le> length (got c))"

text \<open>\<^verbatim>\<open>start\<close>: the new processes are appended to \<^verbatim>\<open>self.workers\<close>.\<close>

definition start :: "pool \<Rightarrow> error + pool" where
  "start p =
     (if approach p = ''multiprocessing'' then
        (case started p of
           None \<Rightarrow> Inl AttributeError
         | Some True \<Rightarrow> Inr p
         | Some False \<Rightarrow>
             Inr (p\<lparr> workers := workers p @ map (\<lambda>g. (g, Starting)) [0..<n_gpus p],
                     started := Some True \<rparr>))
      else Inr p)"

text \<open>
  \<^verbatim>\<open>_execute_multiprocessing\<close> under a schedule. \<open>None\<close>: the caller is still blocked
  (on the full task queue or on the empty result queue) when the schedule ends.
\<close>

definition execute_multiprocessing ::
  "event list \<Rightarrow> work_fn \<Rightarrow> timer \<Rightarrow> pyval list \<Rightarrow> task_id list \<Rightarrow> pool
     \<Rightarrow> (error + outcome list) option \<times> pool" where
  "execute_multiprocessing sched func tm tasks task_ids p =
     (case started p of
        None \<Rightarrow> (Some (Inl AttributeError), p)
      | Some st \<Rightarrow>
          (case (if \<not> st then start p else Inr p) of
             Inl e \<Rightarrow> (Some (Inl e), p)
           | Inr p1 \<Rightarrow>
               (case run tm sched
                       (\<lparr> pending = map (\<lambda>(tid, task). Some (tid, func, normalize_multiprocessing task))
                                       (zip task_ids tasks),
                          got = [], want = length tasks \<rparr>, p1) of
                  (c, p2) \<Rightarrow> if returned c then (Some (Inr (got c)), p2) else (None, p2))))"

section \<open>Result Aggregator and Pool Facade\<close>

text \<open>
  \<^verbatim>\<open>sorted(results, key=lambda x: x.get('task_id', 0))\<close>. Python compares two ints,
  or two strings (by code point); \<^verbatim>\<open><\<close> between an int and a string raises
  \<^verbatim>\<open>TypeError\<close>. The sort is stable and uses \<^verbatim>\<open><\<close> only; it is modelled as
  a stable insertion sort.
\<close>

fun id_lt :: "task_id \<Rightarrow> task_id \<Rightarrow> bool option" where
  "id_lt (IdInt a) (IdInt b) = Some (a < b)"
| "id_lt (IdStr a) (IdStr b) = Some (a < b)"
| "id_lt a b = None"

definition sort_key_of :: "outcome \<Rightarrow> task_id" where
  "sort_key_of x =
     (case dict_get x ''task_id'' of Some (OId t) \<Rightarrow> t | _ \<Rightarrow> IdInt 0)"

fun insert_sorted :: "outcome \<Rightarrow> outcome list \<Rightarrow> error + outcome list" where
  "insert_sorted x [] = Inr [x]"
| "insert_sorted x (y # ys) =
     (case id_lt (sort_key_of y) (sort_key_of x) of
        None \<Rightarrow> Inl TypeError
      | Some False \<Rightarrow> Inr (x # y # ys)
      | Some True \<Rightarrow>
          (case insert_sorted x ys of Inl e \<Rightarrow> Inl e | Inr zs \<Rightarrow> Inr (y # zs)))"

fun py_sorted :: "outcome list \<Rightarrow> error + outcome list" where
  "py_sorted [] = Inr []"
| "py_sorted (x # xs) =
     (case py_sorted xs of Inl e \<Rightarrow> Inl e | Inr ys \<Rightarrow> insert_sorted x ys)"

definition default_ids :: "nat \<Rightarrow> task_id list" where
  "default_ids n = map (\<lambda>i. IdInt (int i)) [0..<n]"

text \<open>\<^verbatim>\<open>if task_ids is None: task_ids = list(range(len(tasks)))\<close>\<close>

definition given_ids :: "nat \<Rightarrow> task_id list option \<Rightarrow> task_id list" where
  "given_ids n ids = (case ids of None \<Rightarrow> default_ids n | Some l \<Rightarrow> l)"

text \<open>
  \<^verbatim>\<open>execute\<close>. \<open>picks\<close> is the completion order of the threads, \<open>sched\<close> the
  interleaving of the processes; \<open>None\<close> means the call has not returned.
\<close>

definition execute ::
  "nat list \<Rightarrow> event list \<Rightarrow> work_fn \<Rightarrow> timer \<Rightarrow> pyval list \<Rightarrow> task_id list option \<Rightarrow> pool
     \<Rightarrow> (error + outcome list) option \<times> pool" where
  "execute picks sched func tm tasks ids p =
     (if tasks = [] then (Some (Inr []), p)
      else
        let task_ids = given_ids (length tasks) ids
        in case (if approach p = ''threading''
                 then (case execute_threading picks func tm tasks task_ids p of
                         (r, p') \<Rightarrow> (Some r, p'))
                 else execute_multiprocessing sched func tm tasks task_ids p) of
             (None, p') \<Rightarrow> (None, p')
           | (Some (Inl e), p') \<Rightarrow> (Some (Inl e), p')
           | (Some (Inr results), p') \<Rightarrow> (Some (py_sorted results), p'))"

text \<open>
  \<^verbatim>\<open>shutdown\<close>. The sentinels are put while the queue has room
  (\<^verbatim>\<open>queue.Full\<close> after the timeout is swallowed); after the joins every process
  has ended, by itself or terminated.
\<close>

fun put_sentinels :: "nat \<Rightarrow> pool \<Rightarrow> pool" where
  "put_sentinels 0 p = p"
| "put_sentinels (Suc n) p =
     put_sentinels n (if queue_full p then p else p\<lparr> task_queue := task_queue p @ [None] \<rparr>)"

definition shutdown :: "pool \<Rightarrow> error + pool" where
  "shutdown p =
     (if approach p = ''multiprocessing'' then
        (case started p of
           None \<Rightarrow> Inl AttributeError
         | Some False \<Rightarrow> Inr p
         | Some True \<Rightarrow>
             (let p1 = put_sentinels (n_gpus p) (p\<lparr> shutdown_event := True \<rparr>)
              in Inr (p1\<lparr> workers := map (\<lambda>(g, w). (g, Exited)) (workers p1),
                         started := Some False \<rparr>)))
      else Inr p)"

section \<open>The convenience function\<close>

text \<open>
  An argument of a call: a plain value, a callable (the initializer, taking the device
  id, \<^verbatim>\<open>*init_args\<close> and \<^verbatim>\<open>**init_kwargs\<close>) or a float.
\<close>

datatype arg =
    ArgVal pyval
  | ArgFn "nat \<Rightarrow> pyval \<Rightarrow> pyval \<Rightarrow> string + pyval"
  | ArgFloat real

fun truthy :: "pyval \<Rightarrow> bool" where
  "truthy VNone = False"
| "truthy (VBool b) = b"
| "truthy (VInt i) = (i \<noteq> 0)"
| "truthy (VStr s) = (s \<noteq> [])"
| "truthy (VTuple xs) = (xs \<noteq> [])"
| "truthy (VList xs) = (xs \<noteq> [])"
| "truthy (VDict d) = (d \<noteq> [])"
| "truthy (VObj h) = True"

fun arg_truthy :: "arg \<Rightarrow> bool" where
  "arg_truthy (ArgVal v) = truthy v"
| "arg_truthy (ArgFn f) = True"
| "arg_truthy (ArgFloat r) = (r \<noteq> 0)"

fun arg_value :: "arg \<Rightarrow> pyval" where
  "arg_value (ArgVal v) = v"
| "arg_value (ArgFn f) = VObj 0"
| "arg_value (ArgFloat r) = VObj 1"

text \<open>
  \<^verbatim>\<open>self.init_fn\<close> as the pool uses it: tested for truth, then called with the device
  id and the stored \<^verbatim>\<open>init_args\<close>, \<^verbatim>\<open>init_kwargs\<close>; calling a truthy value that is
  not callable raises inside the initialization.
\<close>

definition stored_init :: "arg \<Rightarrow> arg \<Rightarrow> arg \<Rightarrow> init_cb option" where
  "stored_init f init_args init_kwargs =
     (case f of
        ArgFn g \<Rightarrow> Some (\<lambda>gpu_id. g gpu_id (arg_value init_args) (arg_value init_kwargs))
      | other \<Rightarrow>
          if arg_truthy other then Some (\<lambda>gpu_id. Inl ''object is not callable'') else None)"

text \<open>
  Calling \<^verbatim>\<open>GPUPool(...)\<close> with positional arguments. \<^verbatim>\<open>__init__\<close> takes, besides
  \<^verbatim>\<open>self\<close>, the five parameters \<^verbatim>\<open>approach\<close>, \<^verbatim>\<open>init_fn\<close>, \<^verbatim>\<open>init_args\<close>,
  \<^verbatim>\<open>init_kwargs\<close>, \<^verbatim>\<open>verbose\<close>, each with a default; more positional arguments
  than parameters is a \<^verbatim>\<open>TypeError\<close> raised before the body runs.
\<close>

definition init_defaults :: "arg list" where
  "init_defaults =
     [ArgVal (VStr ''threading''), ArgVal VNone, ArgVal (VTuple []), ArgVal (VDict []),
      ArgVal (VBool True)]"

definition GPUPool_call :: "nat \<Rightarrow> arg list \<Rightarrow> error + pool" where
  "GPUPool_call device_count args =
     (if length init_defaults < length args then Inl TypeError
      else
        let a = args @ drop (length args) init_defaults
        in case a ! 0 of
             ArgVal (VStr appr) \<Rightarrow>
               GPUPool_init device_count appr (stored_init (a ! 1) (a ! 2) (a ! 3))
                 (arg_truthy (a ! 4))
           | other \<Rightarrow> Inl ValueError)"

text \<open>
  \<^verbatim>\<open>gpu_map\<close>: the \<^verbatim>\<open>with\<close> statement constructs the pool, enters it
  (\<^verbatim>\<open>start\<close> under multiprocessing), runs \<^verbatim>\<open>execute\<close> and shuts down on exit.
\<close>

definition pool_enter :: "pool \<Rightarrow> error + pool" where
  "pool_enter p = (if approach p = ''multiprocessing'' then start p else Inr p)"

definition gpu_map ::
  "nat \<Rightarrow> nat list \<Rightarrow> event list \<Rightarrow> work_fn \<Rightarrow> timer \<Rightarrow> pyval list
     \<Rightarrow> arg \<Rightarrow> arg \<Rightarrow> arg \<Rightarrow> arg \<Rightarrow> arg \<Rightarrow> arg \<Rightarrow> arg
     \<Rightarrow> (error + outcome list) option" where
  "gpu_map device_count picks sched func tm tasks
       approach_arg model_size_gb n_gpus_arg init_fn_arg init_args init_kwargs verbose_arg =
     (case GPUPool_call device_count
             [n_gpus_arg, approach_arg, init_fn_arg, init_args, init_kwargs,
              model_size_gb, verbose_arg] of
        Inl e \<Rightarrow> Some (Inl e)
      | Inr p0 \<Rightarrow>
          (case pool_enter p0 of
             Inl e \<Rightarrow> Some (Inl e)
           | Inr p1 \<Rightarrow>
               (case execute picks sched func tm tasks None p1 of
                  (None, p2) \<Rightarrow> None
                | (Some r, p2) \<Rightarrow>
                    (case shutdown p2 of Inl e \<Rightarrow> Some (Inl e) | Inr p3 \<Rightarrow> Some r))))"

section \<open>Concrete callbacks and pools used in the examples\<close>

definition ex_square :: work_fn where
  "ex_square args kw =
     (case args of VTuple [VInt x] \<Rightarrow> Inr (VInt (x * x)) | _ \<Rightarrow> Inl ''bad arguments'')"

definition ex_positive :: work_fn where
  "ex_positive args kw =
     (case args of
        VTuple [VInt x] \<Rightarrow> if x < 0 then Inl ''negative input'' else Inr (VInt x)
      | _ \<Rightarrow> Inl ''bad arguments'')"

definition ex_timer :: timer where
  "ex_timer args kw = 0"

definition ex_init_fail_on :: "nat \<Rightarrow> init_cb" where
  "ex_init_fail_on d gpu_id = (if gpu_id = d then Inl ''boom'' else Inr (VObj gpu_id))"

definition ex_threading_pool :: "nat \<Rightarrow> init_cb option \<Rightarrow> pool" where
  "ex_threading_pool n ini = blank_pool n ''threading'' ini False"

definition ex_mp_pool :: "nat \<Rightarrow> init_cb option \<Rightarrow> pool" where
  "ex_mp_pool n ini = (blank_pool n ''multiprocessing'' ini False)\<lparr> started := Some False \<rparr>"

section \<open>Predicates used in the statements\<close>

text \<open>Ascending by task id: no record is followed by one whose id is smaller.\<close>

definition ascending :: "outcome list \<Rightarrow> bool" where
  "ascending outs =
     sorted_wrt (\<lambda>a b. id_lt (sort_key_of b) (sort_key_of a) = Some False) outs"

fun is_int_id :: "task_id \<Rightarrow> bool" where
  "is_int_id (IdInt i) = True"
| "is_int_id (IdStr s) = False"

text \<open>\<^verbatim>\<open>self.models[gpu_id]\<close> where the key exists.\<close>

definition device_model :: "pool \<Rightarrow> nat \<Rightarrow> pyval" where
  "device_model p gpu_id = (case dict_get (models p) gpu_id of Some m \<Rightarrow> m | None \<Rightarrow> VNone)"

text \<open>The initializer, if there is one, returns for every device of the pool.\<close>

definition init_ok :: "pool \<Rightarrow> bool" where
  "init_ok p = (case init_fn p of None \<Rightarrow> True | Some f \<Rightarrow> list_all (\<lambda>g. \<not> isl (f g)) [0..<n_gpus p])"

text \<open>
  A threading pool on which \<^verbatim>\<open>execute\<close> gets past the initialization: already
  initialized with an entry for every device, or not yet and the initializer returns.
\<close>

definition ready :: "pool \<Rightarrow> bool" where
  "ready p =
     (if initialized p then list_all (has_key (models p)) [0..<n_gpus p] else init_ok p)"

definition after_init :: "pool \<Rightarrow> pool" where
  "after_init p = (if initialized p then p else snd (initialize_models_threading p))"

text \<open>
  The record \<^verbatim>\<open>worker_thread\<close> returns for the task at position \<open>i\<close> of the batch.
\<close>

definition thread_outcome :: "pool \<Rightarrow> work_fn \<Rightarrow> timer \<Rightarrow> nat \<times> task_id \<times> pyval \<Rightarrow> outcome" where
  "thread_outcome p func tm x =
     (case x of (i, tid, task) \<Rightarrow>
        run_task func tm tid (i mod n_gpus p) (device_model p (i mod n_gpus p))
          (fst (normalize_threading task)) (snd (normalize_threading task)))"

text \<open>The two shapes of a record, by their keys in order.\<close>

definition success_shaped :: "outcome \<Rightarrow> bool" where
  "success_shaped r =
     (map fst r = [''success'', ''task_id'', ''gpu_id'', ''processing_time'', ''result'']
      \<and> dict_get r ''success'' = Some (OBool True))"

definition failure_shaped :: "outcome \<Rightarrow> bool" where
  "failure_shaped r =
     (map fst r = [''success'', ''task_id'', ''gpu_id'', ''error'']
      \<and> dict_get r ''success'' = Some (OBool False))"

text \<open>A record of one of the two shapes.\<close>

definition well_shaped :: "outcome \<Rightarrow> bool" where
  "well_shaped r = (success_shaped r \<or> failure_shaped r)"

text \<open>A task tuple of the queue.\<close>

type_synonym item = "task_id \<times> work_fn \<times> pyval \<times> kwargs"

text \<open>The task tuples of a queue, its sentinels left out.\<close>

fun queued :: "qitem list \<Rightarrow> item list" where
  "queued [] = []"
| "queued (None # q) = queued q"
| "queued (Some x # q) = x # queued q"

text \<open>The tasks that processes have taken and not yet answered.\<close>

fun busy_items :: "(nat \<times> worker) list \<Rightarrow> item list" where
  "busy_items [] = []"
| "busy_items ((g, Busy m c x) # ws) = x # busy_items ws"
| "busy_items (w # ws) = busy_items ws"

text \<open>The private models of the process of a device: what the initializer returned.\<close>

definition init_model :: "init_cb option \<Rightarrow> nat \<Rightarrow> pyval" where
  "init_model ini g =
     (case ini of None \<Rightarrow> VNone | Some f \<Rightarrow> (case f g of Inr m \<Rightarrow> m | Inl e \<Rightarrow> VNone))"

text \<open>
  A process whose initializer does not raise, or has not raised: a process past its
  initializer holds the models the initializer returns for its device.
\<close>

fun worker_ok :: "init_cb option \<Rightarrow> nat \<times> worker \<Rightarrow> bool" where
  "worker_ok ini (g, Starting) = (case ini of None \<Rightarrow> True | Some f \<Rightarrow> \<not> isl (f g))"
| "worker_ok ini (g, Looping m c) = (m = init_model ini g)"
| "worker_ok ini (g, Busy m c x) = (m = init_model ini g)"
| "worker_ok ini (g, Exited) = True"

text \<open>
  Record \<open>r\<close> is the record of task tuple \<open>x\<close>: what running \<open>x\<close> gives on the
  device that \<open>r\<close> names, with the models of that device.
\<close>

definition produced_by :: "init_cb option \<Rightarrow> timer \<Rightarrow> item \<Rightarrow> outcome \<Rightarrow> bool" where
  "produced_by ini tm x r =
     (case x of (tid, func, args, kw) \<Rightarrow>
        (case dict_get r ''gpu_id'' of
           Some (ODev g) \<Rightarrow> r = run_task func tm tid g (init_model ini g) args kw
         | _ \<Rightarrow> False))"

text \<open>The task tuples \<^verbatim>\<open>_execute_multiprocessing\<close> puts on the queue, in order.\<close>

definition submitted :: "work_fn \<Rightarrow> task_id list \<Rightarrow> pyval list \<Rightarrow> item list" where
  "submitted func task_ids tasks =
     map (\<lambda>(tid, task). (tid, func, normalize_multiprocessing task)) (zip task_ids tasks)"

text \<open>
  A multiprocessing pool between two batches with no initializer failure: both queues
  empty, no task taken, and either started, or not started with an initializer that
  returns for every device.
\<close>

definition clean :: "pool \<Rightarrow> bool" where
  "clean p =
     (task_queue p = [] \<and> result_queue p = [] \<and> busy_items (workers p) = []
      \<and> list_all (worker_ok (init_fn p)) (workers p)
      \<and> (started p = Some True \<or> (started p = Some False \<and> init_ok p)))"

text \<open>
  The invariant of a run: the records read or waiting are the records of a multiset
  \<open>D\<close> of task tuples, and \<open>D\<close> with the tuples taken, queued and pending makes up
  the batch \<open>A\<close>.
\<close>

definition mp_inv :: "init_cb option \<Rightarrow> timer \<Rightarrow> item multiset \<Rightarrow> collector \<times> pool \<Rightarrow> bool" where
  "mp_inv ini tm A cp =
     (case cp of (c, p) \<Rightarrow>
        init_fn p = ini
        \<and> list_all (worker_ok ini) (workers p)
        \<and> length (got c) \<le> want c
        \<and> (\<exists>D. rel_mset (produced_by ini tm) D (mset (got c @ result_queue p))
                \<and> D + mset (busy_items (workers p)) + mset (queued (task_queue p))
                    + mset (queued (pending c)) = A))"

text \<open>
  A schedule that serves the batch with the process of device 0 alone: its initializer,
  then for each task the caller's put and the two steps of the process, then the
  caller's reads.
\<close>

definition serial_schedule :: "nat \<Rightarrow> event list" where
  "serial_schedule n =
     Worker 0 # concat (replicate n [Main, Worker 0, Worker 0]) @ replicate n Main"

text \<open>The record of a task tuple run on device \<open>g\<close> with models \<open>m\<close>.\<close>

definition item_outcome :: "timer \<Rightarrow> nat \<Rightarrow> pyval \<Rightarrow> item \<Rightarrow> outcome" where
  "item_outcome tm g m x = (case x of (tid, func, args, kw) \<Rightarrow> run_task func tm tid g m args kw)"

text \<open>A multiprocessing pool as constructed: not started, nothing queued.\<close>

definition fresh_mp :: "pool \<Rightarrow> bool" where
  "fresh_mp p =
     (approach p = ''multiprocessing'' \<and> started p = Some False \<and> workers p = []
      \<and> task_queue p = [] \<and> result_queue p = [] \<and> \<not> shutdown_event p)"

text \<open>
  What the work function returns or raises when \<^verbatim>\<open>worker_thread\<close> calls it for the task
  at position \<open>j\<close>, and when the process of device \<open>g\<close> calls it for a task.
\<close>

definition thread_call :: "pool \<Rightarrow> work_fn \<Rightarrow> nat \<Rightarrow> pyval \<Rightarrow> string + pyval" where
  "thread_call q func j task =
     func (fst (normalize_threading task))
       (enhance (j mod n_gpus q) (device_model q (j mod n_gpus q))
          (snd (normalize_threading task)))"

definition process_call :: "init_cb option \<Rightarrow> work_fn \<Rightarrow> nat \<Rightarrow> pyval \<Rightarrow> string + pyval" where
  "process_call ini func g task =
     func (fst (normalize_multiprocessing task))
       (enhance g (init_model ini g) (snd (normalize_multiprocessing task)))"

text \<open>
  A record read by its entries: a failure of task \<open>tid\<close> with the error description
  \<open>msg\<close>; a success of task \<open>tid\<close> with the value \<open>v\<close>.
\<close>

definition is_failure_of :: "outcome \<Rightarrow> task_id \<Rightarrow> string \<Rightarrow> bool" where
  "is_failure_of r tid msg =
     (dict_get r ''success'' = Some (OBool False) \<and> dict_get r ''task_id'' = Some (OId tid)
      \<and> dict_get r ''error'' = Some (OErr msg))"

definition is_success_of :: "outcome \<Rightarrow> task_id \<Rightarrow> pyval \<Rightarrow> bool" where
  "is_success_of r tid v =
     (dict_get r ''success'' = Some (OBool True) \<and> dict_get r ''task_id'' = Some (OId tid)
      \<and> dict_get r ''result'' = Some (OVal v))"

text \<open>
  A run of the isolated strategy in which no process has ended: no shutdown, no sentinel
  queued, no initializer that raises. The records read and waiting, the tasks taken,
  queued and pending add up to the number of records the caller waits for.
\<close>

fun busy_weight :: "nat \<times> worker \<Rightarrow> nat" where
  "busy_weight (g, Busy m c x) = 1"
| "busy_weight (g, w) = 0"

fun alive_ok :: "init_cb option \<Rightarrow> nat \<times> worker \<Rightarrow> bool" where
  "alive_ok ini (g, w) = (w \<noteq> Exited \<and> worker_ok ini (g, w))"

definition live_inv :: "init_cb option \<Rightarrow> collector \<times> pool \<Rightarrow> bool" where
  "live_inv ini cp =
     (case cp of (c, q) \<Rightarrow>
        init_fn q = ini \<and> \<not> shutdown_event q \<and> 0 < n_gpus q \<and> workers q \<noteq> []
        \<and> list_all (alive_ok ini) (workers q)
        \<and> list_all (\<lambda>x. x \<noteq> None) (task_queue q)
        \<and> list_all (\<lambda>x. x \<noteq> None) (pending c)
        \<and> length (got c) + length (result_queue q) + sum_list (map busy_weight (workers q))
            + length (task_queue q) + length (pending c) = want c)"

text \<open>
  The steps still needed before the caller has read every record: four for a pending
  task (put, take, answer, read), three for a queued one, two for one taken, one for a
  record waiting, and one for a process that has not run its initializer.
\<close>

fun work_weight :: "nat \<times> worker \<Rightarrow> nat" where
  "work_weight (g, Starting) = 1"
| "work_weight (g, Busy m c x) = 2"
| "work_weight (g, w) = 0"

definition remaining :: "collector \<times> pool \<Rightarrow> nat" where
  "remaining cp =
     (case cp of (c, q) \<Rightarrow>
        4 * length (pending c) + 3 * length (task_queue q) + length (result_queue q)
        + sum_list (map work_weight (workers q)))"

section \<open>Auxiliary facts: sorting and completion order\<close>

lemma id_lt_None_iff: "id_lt a b = None \<longleftrightarrow> is_int_id a \<noteq> is_int_id b"
  by (cases a; cases b) simp_all

lemma id_lt_trans:
  "id_lt b a = Some False \<Longrightarrow> id_lt c b = Some False \<Longrightarrow> id_lt c a = Some False"
  by (cases a; cases b; cases c) auto

lemma id_lt_asym: "id_lt y x = Some True \<Longrightarrow> id_lt x y = Some False"
  by (cases x; cases y) auto

lemma insert_sorted_Inr:
  "insert_sorted x ys = Inr zs \<Longrightarrow> mset zs = add_mset x (mset ys)"
  by (induction ys arbitrary: zs) (auto split: option.splits bool.splits sum.splits)

lemma insert_sorted_ascending:
  "insert_sorted x ys = Inr zs \<Longrightarrow> ascending ys \<Longrightarrow> ascending zs"
proof (induction ys arbitrary: zs)
  case Nil
  then show ?case by (auto simp: ascending_def)
next
  case (Cons y ys)
  show ?case
  proof (cases "id_lt (sort_key_of y) (sort_key_of x)")
    case None
    with Cons.prems show ?thesis by simp
  next
    case (Some b)
    show ?thesis
    proof (cases b)
      case False
      with Some Cons.prems have zs: "zs = x # y # ys" by simp
      have "\<forall>b\<in>set ys. id_lt (sort_key_of b) (sort_key_of x) = Some False"
        using Cons.prems(2) Some False id_lt_trans unfolding ascending_def by auto
      with Cons.prems(2) Some False zs show ?thesis by (simp add: ascending_def)
    next
      case True
      with Some Cons.prems obtain zs' where
        ins: "insert_sorted x ys = Inr zs'" and zs: "zs = y # zs'"
        by (auto split: sum.splits)
      from Cons.prems(2) have ays: "ascending ys" by (simp add: ascending_def)
      from Cons.IH [OF ins ays] have a': "ascending zs'" .
      from insert_sorted_Inr [OF ins] have "set_mset (mset zs') = set_mset (add_mset x (mset ys))"
        by simp
      then have s: "set zs' = insert x (set ys)" by simp
      have "id_lt (sort_key_of x) (sort_key_of y) = Some False"
        using Some True id_lt_asym by simp
      with Cons.prems(2) s a' zs show ?thesis by (auto simp: ascending_def)
    qed
  qed
qed

lemma py_sorted_Inr:
  "py_sorted xs = Inr ys \<Longrightarrow> mset ys = mset xs \<and> ascending ys"
proof (induction xs arbitrary: ys)
  case Nil
  then show ?case by (simp add: ascending_def)
next
  case (Cons x xs)
  then obtain zs where z: "py_sorted xs = Inr zs" and i: "insert_sorted x zs = Inr ys"
    by (auto split: sum.splits)
  from Cons.IH [OF z] insert_sorted_Inr [OF i] insert_sorted_ascending [OF i]
  show ?case by simp
qed

lemma insert_sorted_Inl: "insert_sorted x ys = Inl e \<Longrightarrow> e = TypeError"
  by (induction ys) (auto split: option.splits bool.splits sum.splits)

lemma py_sorted_Inl: "py_sorted xs = Inl e \<Longrightarrow> e = TypeError"
  by (induction xs) (auto split: sum.splits dest: insert_sorted_Inl)

lemma insert_sorted_same_kind:
  "\<forall>y\<in>set ys. is_int_id (sort_key_of y) = is_int_id (sort_key_of x)
     \<Longrightarrow> \<exists>zs. insert_sorted x ys = Inr zs"
proof (induction ys)
  case Nil
  then show ?case by simp
next
  case (Cons y ys)
  then have "id_lt (sort_key_of y) (sort_key_of x) \<noteq> None"
    by (simp add: id_lt_None_iff)
  with Cons show ?case by (auto split: option.splits bool.splits sum.splits)
qed

lemma py_sorted_set: "py_sorted xs = Inr zs \<Longrightarrow> set zs = set xs"
  using py_sorted_Inr mset_eq_setD by blast

lemma comparable_tail:
  "\<forall>a\<in>set (x # xs). \<forall>b\<in>set (x # xs). id_lt (sort_key_of a) (sort_key_of b) \<noteq> None
     \<Longrightarrow> \<forall>a\<in>set xs. \<forall>b\<in>set xs. id_lt (sort_key_of a) (sort_key_of b) \<noteq> None"
  by (meson list.set_intros(2))

lemma comparable_head:
  "\<forall>a\<in>set (x # xs). \<forall>b\<in>set (x # xs). id_lt (sort_key_of a) (sort_key_of b) \<noteq> None
     \<Longrightarrow> \<forall>y\<in>set xs. is_int_id (sort_key_of y) = is_int_id (sort_key_of x)"
  by (meson id_lt_None_iff list.set_intros(1) list.set_intros(2))

lemma py_sorted_same_kind:
  "\<forall>a\<in>set xs. \<forall>b\<in>set xs. id_lt (sort_key_of a) (sort_key_of b) \<noteq> None
     \<Longrightarrow> \<exists>ys. py_sorted xs = Inr ys"
proof (induction xs)
  case Nil
  show ?case by simp
next
  case (Cons x xs)
  from Cons.IH [OF comparable_tail [OF Cons.prems]]
  obtain zs where z: "py_sorted xs = Inr zs" by blast
  from comparable_head [OF Cons.prems] py_sorted_set [OF z]
  have "\<forall>y\<in>set zs. is_int_id (sort_key_of y) = is_int_id (sort_key_of x)" by simp
  from insert_sorted_same_kind [OF this] obtain ys where "insert_sorted x zs = Inr ys" by blast
  with z show ?case by simp
qed

lemma insert_sorted_other_kind:
  assumes "ys \<noteq> []"
    and "\<forall>y\<in>set ys. is_int_id (sort_key_of y) \<noteq> is_int_id (sort_key_of x)"
  shows "insert_sorted x ys = Inl TypeError"
proof (cases ys)
  case Nil
  then show ?thesis using assms by simp
next
  case (Cons y ys')
  with assms(2) have "id_lt (sort_key_of y) (sort_key_of x) = None"
    by (simp add: id_lt_None_iff)
  with Cons show ?thesis by simp
qed

lemma py_sorted_mixed:
  "a \<in> set xs \<Longrightarrow> b \<in> set xs \<Longrightarrow> id_lt (sort_key_of a) (sort_key_of b) = None
     \<Longrightarrow> py_sorted xs = Inl TypeError"
proof (induction xs arbitrary: a b)
  case Nil
  then show ?case by simp
next
  case (Cons x xs)
  show ?case
  proof (cases "py_sorted xs")
    case (Inl e)
    with py_sorted_Inl [OF Inl] show ?thesis by simp
  next
    case (Inr zs)
    from py_sorted_Inr [OF Inr] have "set_mset (mset zs) = set_mset (mset xs)" by simp
    then have s: "set zs = set xs" by simp
    have pair: "is_int_id (sort_key_of u) = is_int_id (sort_key_of v)"
      if "u \<in> set xs" "v \<in> set xs" for u v
    proof (rule ccontr)
      assume "is_int_id (sort_key_of u) \<noteq> is_int_id (sort_key_of v)"
      then have "id_lt (sort_key_of u) (sort_key_of v) = None" by (simp add: id_lt_None_iff)
      from Cons.IH [OF that this] Inr show False by simp
    qed
    from Cons.prems(3) have ab: "is_int_id (sort_key_of a) \<noteq> is_int_id (sort_key_of b)"
      by (simp add: id_lt_None_iff)
    have "\<exists>c\<in>set xs. is_int_id (sort_key_of c) \<noteq> is_int_id (sort_key_of x)"
    proof (cases "a = x")
      case True
      with ab Cons.prems(2) show ?thesis by auto
    next
      case False
      with Cons.prems(1) have ax: "a \<in> set xs" by simp
      show ?thesis
      proof (cases "b = x")
        case True
        with ab ax show ?thesis by auto
      next
        case False
        with Cons.prems(2) have "b \<in> set xs" by simp
        with pair [OF ax this] ab show ?thesis by simp
      qed
    qed
    then obtain c where c: "c \<in> set xs"
      "is_int_id (sort_key_of c) \<noteq> is_int_id (sort_key_of x)" by blast
    have all: "\<forall>y\<in>set zs. is_int_id (sort_key_of y) \<noteq> is_int_id (sort_key_of x)"
      using pair c s by metis
    from c s have "zs \<noteq> []" by auto
    from insert_sorted_other_kind [OF this all] Inr show ?thesis by simp
  qed
qed

lemma mset_as_completed: "mset (as_completed picks xs) = mset xs"
proof (induction picks xs rule: as_completed.induct)
  case (3 k picks x xs)
  let ?l = "x # xs"
  let ?i = "k mod length ?l"
  have i: "?i < length ?l" by simp
  have "mset ?l = mset (take ?i ?l @ ?l ! ?i # drop (Suc ?i) ?l)"
    using id_take_nth_drop [OF i] by simp
  with 3 show ?case by (simp add: Let_def)
qed simp_all

lemma collect_results_map_Inr: "collect_results (map Inr outs) = Inr outs"
  by (induction outs) simp_all

lemma collect_results_Inr: "collect_results rs = Inr outs \<Longrightarrow> rs = map Inr outs"
  by (induction rs arbitrary: outs rule: collect_results.induct)
     (auto split: sum.splits)

section \<open>Auxiliary facts: the shared strategy\<close>

lemma has_key_dict_get: "has_key d k \<longleftrightarrow> dict_get d k \<noteq> None"
  by (simp add: has_key_def dict_get_def map_of_eq_None_iff)

lemma dict_get_dict_set:
  "dict_get (dict_set k v d) k' = (if k' = k then Some v else dict_get d k')"
  by (induction d) (auto simp: dict_get_def)

lemma has_key_dict_set: "has_key (dict_set k v d) k' \<longleftrightarrow> k' = k \<or> has_key d k'"
  by (simp add: has_key_dict_get dict_get_dict_set)

lemma load_models_fields:
  "load_models gs p = (r, p') \<Longrightarrow> p' = p\<lparr> models := models p' \<rparr>"
proof (induction gs arbitrary: p)
  case Nil
  then show ?case by simp
next
  case (Cons g gs)
  show ?case
  proof (cases "init_fn p")
    case None
    with Cons.prems have "load_models gs (p\<lparr> models := dict_set g VNone (models p) \<rparr>) = (r, p')"
      by simp
    from Cons.IH [OF this] show ?thesis by (cases p, cases p') simp
  next
    case (Some f)
    show ?thesis
    proof (cases "f g")
      case (Inl msg)
      with Some Cons.prems show ?thesis by simp
    next
      case (Inr m)
      with Some Cons.prems have "load_models gs (p\<lparr> models := dict_set g m (models p) \<rparr>) = (r, p')"
        by simp
      from Cons.IH [OF this] show ?thesis by (cases p, cases p') simp
    qed
  qed
qed

lemma load_models_ok:
  "(case init_fn p of None \<Rightarrow> True | Some f \<Rightarrow> list_all (\<lambda>g. \<not> isl (f g)) gs)
     \<Longrightarrow> fst (load_models gs p) = None
         \<and> (\<forall>g. has_key (models p) g \<or> g \<in> set gs \<longrightarrow> has_key (models (snd (load_models gs p))) g)"
proof (induction gs arbitrary: p)
  case Nil
  then show ?case by simp
next
  case (Cons g gs)
  show ?case
  proof (cases "init_fn p")
    case None
    let ?q = "p\<lparr> models := dict_set g VNone (models p) \<rparr>"
    have "case init_fn ?q of None \<Rightarrow> True | Some f \<Rightarrow> list_all (\<lambda>g. \<not> isl (f g)) gs"
      using None by simp
    from Cons.IH [OF this] None show ?thesis by (simp add: has_key_dict_set)
  next
    case (Some f)
    with Cons.prems obtain m where m: "f g = Inr m" by (cases "f g") auto
    let ?q = "p\<lparr> models := dict_set g m (models p) \<rparr>"
    have "case init_fn ?q of None \<Rightarrow> True | Some f \<Rightarrow> list_all (\<lambda>g. \<not> isl (f g)) gs"
      using Some Cons.prems by simp
    from Cons.IH [OF this] Some m show ?thesis by (simp add: has_key_dict_set)
  qed
qed

lemma load_models_fail:
  "init_fn p = Some f \<Longrightarrow> list_all (\<lambda>g. \<not> isl (f g)) as \<Longrightarrow> f d = Inl msg
     \<Longrightarrow> fst (load_models (as @ d # bs) p) = Some (Raised msg)
         \<and> initialized (snd (load_models (as @ d # bs) p)) = initialized p"
proof (induction as arbitrary: p)
  case Nil
  then show ?case by simp
next
  case (Cons g as)
  then obtain m where m: "f g = Inr m" by (cases "f g") auto
  let ?q = "p\<lparr> models := dict_set g m (models p) \<rparr>"
  have "init_fn ?q = Some f" using Cons.prems by simp
  from Cons.IH [OF this] Cons.prems m show ?case by simp
qed

lemma after_init_ready:
  assumes "ready p"
  shows "(if initialized p then (None, p) else initialize_models_threading p) = (None, after_init p)"
    and "list_all (has_key (models (after_init p))) [0..<n_gpus p]"
    and "n_gpus (after_init p) = n_gpus p"
    and "approach (after_init p) = approach p"
proof -
  show "(if initialized p then (None, p) else initialize_models_threading p) = (None, after_init p)"
  proof (cases "initialized p")
    case True
    then show ?thesis by (simp add: after_init_def)
  next
    case False
    with assms have "init_ok p" by (simp add: ready_def)
    then have "fst (load_models [0..<n_gpus p] p) = None"
      using load_models_ok [where p = p and gs = "[0..<n_gpus p]"] by (simp add: init_ok_def)
    then show ?thesis using False
      by (cases "load_models [0..<n_gpus p] p")
         (simp add: after_init_def initialize_models_threading_def)
  qed
  obtain r q where l: "load_models [0..<n_gpus p] p = (r, q)" by fastforce
  from load_models_fields [OF l] have q: "q = p\<lparr> models := models q \<rparr>" .
  have nq: "n_gpus q = n_gpus p" and aq: "approach q = approach p"
    by (subst q, simp)+
  show "n_gpus (after_init p) = n_gpus p"
    using l nq by (simp add: after_init_def initialize_models_threading_def split: option.splits)
  show "approach (after_init p) = approach p"
    using l aq by (simp add: after_init_def initialize_models_threading_def split: option.splits)
  show "list_all (has_key (models (after_init p))) [0..<n_gpus p]"
  proof (cases "initialized p")
    case True
    with assms show ?thesis by (simp add: after_init_def ready_def)
  next
    case False
    with assms have "init_ok p" by (simp add: ready_def)
    then have "\<forall>g. g \<in> set [0..<n_gpus p] \<longrightarrow> has_key (models (snd (load_models [0..<n_gpus p] p))) g"
      using load_models_ok [where p = p and gs = "[0..<n_gpus p]"] by (simp add: init_ok_def)
    then show ?thesis using False l
      by (simp add: after_init_def initialize_models_threading_def list_all_iff split: option.splits)
  qed
qed

lemma as_completed_map: "as_completed picks (map f xs) = map f (as_completed picks xs)"
proof (induction picks xs rule: as_completed.induct)
  case (3 k picks x xs)
  let ?i = "k mod Suc (length xs)"
  have i: "?i < length (x # xs)" by simp
  have t: "take ?i (f x # map f xs) = map f (take ?i (x # xs))"
    using take_map [of ?i f "x # xs"] by simp
  have n: "(f x # map f xs) ! ?i = f ((x # xs) ! ?i)"
    using nth_map [OF i, of f] by simp
  from 3 t n show ?case by (simp add: Let_def drop_map)
qed simp_all

lemma worker_thread_ready:
  "has_key (models q) g \<Longrightarrow>
   worker_thread q func tm (tid, g, args, kw)
     = Inr (run_task func tm tid g (device_model q g) args kw)"
  by (auto simp: worker_thread_def device_model_def has_key_dict_get)

lemma prepared_outcomes:
  assumes "list_all (has_key (models q)) [0..<n_gpus q]" "0 < n_gpus q"
  shows "map (worker_thread q func tm)
           (map (\<lambda>(i, tid, task). (tid, i mod n_gpus q, normalize_threading task)) xs)
         = map Inr (map (thread_outcome q func tm) xs)"
proof -
  have "worker_thread q func tm (tid, i mod n_gpus q, normalize_threading task)
        = Inr (thread_outcome q func tm (i, tid, task))" for i tid task
  proof -
    have "i mod n_gpus q < n_gpus q" using assms(2) by simp
    with assms(1) have "has_key (models q) (i mod n_gpus q)" by (simp add: list_all_iff)
    from worker_thread_ready [OF this, of func tm tid "fst (normalize_threading task)"
        "snd (normalize_threading task)"]
    show ?thesis by (simp add: thread_outcome_def)
  qed
  then show ?thesis by (induction xs) auto
qed

lemma execute_threading_ready:
  assumes "ready p" "0 < n_gpus p"
  shows "execute_threading picks func tm tasks task_ids p
         = (Inr (as_completed picks
                   (map (thread_outcome (after_init p) func tm)
                      (List.enumerate 0 (zip task_ids tasks)))),
            after_init p)"
proof -
  let ?q = "after_init p"
  note r = after_init_ready [OF assms(1)]
  have n: "n_gpus ?q = n_gpus p" by (rule r(3))
  have k: "list_all (has_key (models ?q)) [0..<n_gpus ?q]" using r(2) n by simp
  have pos: "0 < n_gpus ?q" using assms(2) n by simp
  have prep: "prepare_tasks (n_gpus ?q) task_ids tasks
        = Inr (map (\<lambda>(i, tid, task). (tid, i mod n_gpus ?q, normalize_threading task))
                 (List.enumerate 0 (zip task_ids tasks)))"
    using pos by (simp add: prepare_tasks_def)
  let ?en = "List.enumerate 0 (zip task_ids tasks)"
  let ?prep = "map (\<lambda>(i, tid, task). (tid, i mod n_gpus ?q, normalize_threading task)) ?en"
  have c: "collect_results (as_completed picks (map (worker_thread ?q func tm) ?prep))
           = Inr (as_completed picks (map (thread_outcome ?q func tm) ?en))"
    by (simp only: prepared_outcomes [OF k pos] as_completed_map collect_results_map_Inr)
  show ?thesis
    unfolding execute_threading_def r(1)
    using pos by (simp del: map_map add: prep c)
qed

lemma execute_on_threading:
  assumes "approach p = ''threading''" "tasks \<noteq> []" "ready p" "0 < n_gpus p"
  shows "execute picks sched func tm tasks ids p
         = (Some (py_sorted (as_completed picks
                   (map (thread_outcome (after_init p) func tm)
                      (List.enumerate 0 (zip (given_ids (length tasks) ids) tasks))))),
            after_init p)"
  using assms
  by (simp add: execute_def Let_def execute_threading_ready split: sum.splits)

lemma after_init_still_ready:
  assumes "ready p"
  shows "ready (after_init p)" 
proof (cases "initialized p")
  case True
  with assms show ?thesis by (simp add: after_init_def)
next
  case False
  obtain r q where l: "load_models [0..<n_gpus p] p = (r, q)" by fastforce
  from after_init_ready(1) [OF assms] False
  have i: "initialize_models_threading p = (None, after_init p)" by simp
  with l have "after_init p = q\<lparr> initialized := True \<rparr>"
    by (auto simp: initialize_models_threading_def split: option.splits)
  then have "initialized (after_init p)" by simp
  with after_init_ready(2,3) [OF assms] show ?thesis by (simp add: ready_def)
qed

lemma execute_threading_init_fails:
  assumes "\<not> initialized p" "init_fn p = Some f" "d < n_gpus p" "f d = Inl msg"
    "list_all (\<lambda>g. \<not> isl (f g)) [0..<d]"
  shows "fst (execute_threading picks func tm tasks task_ids p) = Inl (Raised msg)"
    and "\<not> initialized (snd (execute_threading picks func tm tasks task_ids p))"
proof -
  have "[0..<d + (n_gpus p - d)] = [0..<d] @ [d..<d + (n_gpus p - d)]"
    by (rule upt_add_eq_append) simp
  then have u: "[0..<n_gpus p] = [0..<d] @ d # [Suc d..<n_gpus p]"
    using assms(3) by (simp add: upt_conv_Cons)
  from load_models_fail [OF assms(2,5,4), of "[Suc d..<n_gpus p]"] u
  have l: "fst (load_models [0..<n_gpus p] p) = Some (Raised msg)"
    "initialized (snd (load_models [0..<n_gpus p] p)) = initialized p" by simp_all
  obtain r q where rq: "load_models [0..<n_gpus p] p = (r, q)" by fastforce
  with l assms(1) have "r = Some (Raised msg)" "\<not> initialized q" by simp_all
  with rq assms(1)
  show "fst (execute_threading picks func tm tasks task_ids p) = Inl (Raised msg)"
    and "\<not> initialized (snd (execute_threading picks func tm tasks task_ids p))"
    by (simp_all add: execute_threading_def initialize_models_threading_def)
qed

lemma put_sentinels_fields:
  "put_sentinels n p = (put_sentinels n p)\<lparr> task_queue := task_queue (put_sentinels n p) \<rparr>
   \<and> approach (put_sentinels n p) = approach p"
  by (induction n arbitrary: p) simp_all

section \<open>Auxiliary facts: the isolated strategy\<close>

lemma run_task_gpu_id: "dict_get (run_task func tm tid g m args kw) ''gpu_id'' = Some (ODev g)"
  by (simp add: run_task_def success_outcome_def failure_outcome_def dict_get_def Let_def
      split: sum.splits)

lemma produced_by_run_task:
  "produced_by ini tm (tid, func, args, kw) (run_task func tm tid g (init_model ini g) args kw)"
  by (simp add: produced_by_def run_task_gpu_id)

lemma busy_items_Cons:
  "mset (busy_items (x # ys)) = mset (busy_items [x]) + mset (busy_items ys)"
proof (cases x)
  case (Pair g w)
  then show ?thesis by (cases w) auto
qed

lemma busy_items_update:
  "k < length ws \<Longrightarrow>
   mset (busy_items (ws[k := w])) + mset (busy_items [ws ! k])
   = mset (busy_items ws) + mset (busy_items [w])"
proof (induction ws arbitrary: k)
  case Nil
  then show ?case by simp
next
  case (Cons a ws)
  show ?case
  proof (cases k)
    case 0
    show ?thesis using 0 busy_items_Cons [of a ws] busy_items_Cons [of w ws] by simp
  next
    case (Suc j)
    from Suc Cons.prems have "j < length ws" by simp
    from Cons.IH [OF this] Suc show ?thesis
      using busy_items_Cons [of a "ws[j := w]"] busy_items_Cons [of a ws] by simp
  qed
qed

lemma worker_ok_update:
  "list_all (worker_ok ini) ws \<Longrightarrow> worker_ok ini w \<Longrightarrow> list_all (worker_ok ini) (ws[k := w])"
  unfolding list_all_iff using set_update_subset_insert by fastforce

lemma mp_invI:
  "init_fn p = ini \<Longrightarrow> list_all (worker_ok ini) (workers p) \<Longrightarrow> length (got c) \<le> want c
   \<Longrightarrow> rel_mset (produced_by ini tm) D (mset (got c @ result_queue p))
   \<Longrightarrow> D + mset (busy_items (workers p)) + mset (queued (task_queue p))
         + mset (queued (pending c)) = A
   \<Longrightarrow> mp_inv ini tm A (c, p)"
  by (auto simp: mp_inv_def)

lemma mp_invE:
  assumes "mp_inv ini tm A (c, p)"
  obtains D where "init_fn p = ini" "list_all (worker_ok ini) (workers p)"
    "length (got c) \<le> want c"
    "rel_mset (produced_by ini tm) D (mset (got c @ result_queue p))"
    "D + mset (busy_items (workers p)) + mset (queued (task_queue p))
       + mset (queued (pending c)) = A"
  using assms by (auto simp: mp_inv_def)

lemma set_worker_fields [simp]:
  "workers (set_worker k w p) = (workers p)[k := (fst (workers p ! k), w)]"
  "task_queue (set_worker k w p) = task_queue p"
  "result_queue (set_worker k w p) = result_queue p"
  "init_fn (set_worker k w p) = init_fn p"
  by (simp_all add: set_worker_def)

lemma put_result_fields [simp]:
  "workers (put_result r p) = workers p"
  "task_queue (put_result r p) = task_queue p"
  "result_queue (put_result r p) = result_queue p @ [r]"
  "init_fn (put_result r p) = init_fn p"
  by (simp_all add: put_result_def)

lemma worker_step_inv:
  assumes "mp_inv ini tm A (c, p)"
  shows "mp_inv ini tm A (c, worker_process_step tm k p)"
proof (cases "k < length (workers p)")
  case False
  then show ?thesis using assms by (simp add: worker_process_step_def)
next
  case True
  obtain g w where gw: "workers p ! k = (g, w)" by fastforce
  from assms obtain D where
    ini: "init_fn p = ini" and ok: "list_all (worker_ok ini) (workers p)"
    and len: "length (got c) \<le> want c"
    and rel: "rel_mset (produced_by ini tm) D (mset (got c @ result_queue p))"
    and sum: "D + mset (busy_items (workers p)) + mset (queued (task_queue p))
       + mset (queued (pending c)) = A"
    by (rule mp_invE)
  have okw: "worker_ok ini (g, w)" using ok True gw by (metis list_all_length)
  have upd: "mset (busy_items ((workers p)[k := (g, w')])) + mset (busy_items [(g, w)])
             = mset (busy_items (workers p)) + mset (busy_items [(g, w')])" for w'
    using busy_items_update [OF True, of "(g, w')"] gw by simp
  have oku: "worker_ok ini (g, w') \<Longrightarrow> list_all (worker_ok ini) ((workers p)[k := (g, w')])" for w'
    using worker_ok_update [OF ok] by simp
  show ?thesis
  proof (cases w)
    case Starting
    show ?thesis
    proof (cases ini)
      case None
      have st: "worker_process_step tm k p = set_worker k (Looping VNone 0) p"
        using True gw Starting None ini by (simp add: worker_process_step_def)
      have w': "worker_ok ini (g, Looping VNone 0)" using None by (simp add: init_model_def)
      show ?thesis unfolding st
        using ini oku [OF w'] len rel sum upd [of "Looping VNone 0"] Starting gw
        by (intro mp_invI [where D = D]) simp_all
    next
      case (Some f)
      with okw Starting obtain m where m: "f g = Inr m" by (cases "f g") auto
      have st: "worker_process_step tm k p = set_worker k (Looping m 0) p"
        using True gw Starting Some ini m by (simp add: worker_process_step_def)
      have w': "worker_ok ini (g, Looping m 0)" using Some m by (simp add: init_model_def)
      show ?thesis unfolding st
        using ini oku [OF w'] len rel sum upd [of "Looping m 0"] Starting gw
        by (intro mp_invI [where D = D]) simp_all
    qed
  next
    case (Looping m n)
    have wE: "worker_ok ini (g, Exited)" by simp
    show ?thesis
    proof (cases "shutdown_event p")
      case ev: True
      have st: "worker_process_step tm k p = set_worker k Exited p"
        using True gw Looping ev by (simp add: worker_process_step_def)
      show ?thesis unfolding st
        using ini oku [OF wE] len rel sum upd [of Exited] Looping gw
        by (intro mp_invI [where D = D]) simp_all
    next
      case ev: False
      show ?thesis
      proof (cases "task_queue p")
        case Nil
        have st: "worker_process_step tm k p = p"
          using True gw Looping ev Nil by (simp add: worker_process_step_def)
        show ?thesis unfolding st by (rule assms)
      next
        case (Cons x q)
        show ?thesis
        proof (cases x)
          case None
          have st: "worker_process_step tm k p = set_worker k Exited (p\<lparr> task_queue := q \<rparr>)"
            using True gw Looping ev Cons None by (simp add: worker_process_step_def)
          show ?thesis unfolding st
            using ini oku [OF wE] len rel sum upd [of Exited] Looping gw Cons None
            by (intro mp_invI [where D = D]) simp_all
        next
          case (Some it)
          have st: "worker_process_step tm k p
                    = set_worker k (Busy m (Suc n) it) (p\<lparr> task_queue := q \<rparr>)"
            using True gw Looping ev Cons Some by (simp add: worker_process_step_def)
          have w': "worker_ok ini (g, Busy m (Suc n) it)" using okw Looping by simp
          have b: "mset (busy_items ((workers p)[k := (g, Busy m (Suc n) it)]))
                   = add_mset it (mset (busy_items (workers p)))"
            using upd [of "Busy m (Suc n) it"] Looping by simp
          have s': "D + add_mset it (mset (busy_items (workers p))) + mset (queued q)
                    + mset (queued (pending c)) = A"
            using sum Cons Some by simp
          show ?thesis unfolding st
            using ini oku [OF w'] len rel s' b gw
            by (intro mp_invI [where D = D]) simp_all
        qed
      qed
    qed
  next
    case (Busy m n it)
    obtain tid func args kw where it: "it = (tid, func, args, kw)" by (cases it) auto
    let ?r = "run_task func tm tid g m args kw"
    have st: "worker_process_step tm k p = put_result ?r (set_worker k (Looping m n) p)"
      using True gw Busy it by (simp add: worker_process_step_def)
    have mm: "m = init_model ini g" using okw Busy by simp
    have w': "worker_ok ini (g, Looping m n)" using mm by simp
    have pr: "produced_by ini tm it ?r" unfolding it mm by (rule produced_by_run_task)
    have rel': "rel_mset (produced_by ini tm) (add_mset it D)
                  (mset (got c @ result_queue p @ [?r]))"
      using rel_mset_Plus [OF pr rel] by simp
    have b: "add_mset it (mset (busy_items ((workers p)[k := (g, Looping m n)])))
             = mset (busy_items (workers p))"
      using upd [of "Looping m n"] Busy by simp
    have s': "add_mset it D + mset (busy_items ((workers p)[k := (g, Looping m n)]))
                + mset (queued (task_queue p)) + mset (queued (pending c)) = A"
      using sum b [symmetric] by simp
    show ?thesis unfolding st
      using ini oku [OF w'] len rel' s' gw
      by (intro mp_invI [where D = "add_mset it D"]) simp_all
  next
    case Exited
    have st: "worker_process_step tm k p = p"
      using True gw Exited by (simp add: worker_process_step_def)
    show ?thesis unfolding st by (rule assms)
  qed
qed

lemma queued_append: "queued (xs @ ys) = queued xs @ queued ys"
  by (induction xs rule: queued.induct) simp_all

lemma queued_map_Some: "queued (map Some xs) = xs"
  by (induction xs) simp_all

lemma busy_items_append: "busy_items (xs @ ys) = busy_items xs @ busy_items ys"
  by (induction xs rule: busy_items.induct) simp_all

lemma busy_items_Starting: "busy_items (map (\<lambda>g. (g, Starting)) gs) = []"
  by (induction gs) simp_all

lemma main_step_inv:
  assumes "mp_inv ini tm A cp"
  shows "mp_inv ini tm A (main_step cp)"
proof -
  obtain c p where cp: "cp = (c, p)" by (cases cp) auto
  from assms [unfolded cp] obtain D where
    ini: "init_fn p = ini" and ok: "list_all (worker_ok ini) (workers p)"
    and len: "length (got c) \<le> want c"
    and rel: "rel_mset (produced_by ini tm) D (mset (got c @ result_queue p))"
    and sum: "D + mset (busy_items (workers p)) + mset (queued (task_queue p))
       + mset (queued (pending c)) = A"
    by (rule mp_invE)
  show ?thesis
  proof (cases "pending c")
    case (Cons x rest)
    show ?thesis
    proof (cases "queue_full p")
      case True
      with Cons have "main_step (c, p) = (c, p)" by (simp add: main_step_def)
      with assms cp show ?thesis by simp
    next
      case False
      with Cons have st: "main_step (c, p)
          = (c\<lparr> pending := rest \<rparr>, p\<lparr> task_queue := task_queue p @ [x] \<rparr>)"
        by (simp add: main_step_def)
      have "mset (queued (task_queue p @ [x])) + mset (queued rest)
            = mset (queued (task_queue p)) + mset (queued (x # rest))"
        by (cases x) (simp_all add: queued_append)
      with sum Cons have s': "D + mset (busy_items (workers p))
            + mset (queued (task_queue p @ [x])) + mset (queued rest) = A"
        by (simp add: add.assoc)
      show ?thesis unfolding cp st
        using ini ok len rel s' by (intro mp_invI [where D = D]) simp_all
    qed
  next
    case Nil
    show ?thesis
    proof (cases "length (got c) < want c")
      case False
      with Nil have "main_step (c, p) = (c, p)" by (simp add: main_step_def)
      with assms cp show ?thesis by simp
    next
      case True
      show ?thesis
      proof (cases "result_queue p")
        case rq: Nil
        with Nil True have "main_step (c, p) = (c, p)" by (simp add: main_step_def)
        with assms cp show ?thesis by simp
      next
        case rq: (Cons r rest)
        with Nil True have st: "main_step (c, p)
            = (c\<lparr> got := got c @ [r] \<rparr>, p\<lparr> result_queue := rest \<rparr>)"
          by (simp add: main_step_def)
        show ?thesis unfolding cp st
          using ini ok True rel sum rq by (intro mp_invI [where D = D]) simp_all
      qed
    qed
  qed
qed

lemma run_inv: "mp_inv ini tm A cp \<Longrightarrow> mp_inv ini tm A (run tm es cp)"
proof (induction es arbitrary: cp)
  case Nil
  then show ?case by simp
next
  case (Cons e es)
  show ?case
  proof (cases e)
    case Main
    with Cons.IH [OF main_step_inv [OF Cons.prems]] show ?thesis by simp
  next
    case (Worker k)
    obtain c p where cp: "cp = (c, p)" by (cases cp) auto
    from Cons.prems cp have "mp_inv ini tm A (c, worker_process_step tm k p)"
      using worker_step_inv by simp
    from Cons.IH [OF this] Worker cp show ?thesis by simp
  qed
qed

lemma mp_inv_returned:
  assumes "mp_inv ini tm A (c, p)" "returned c" "want c = size A"
  shows "rel_mset (produced_by ini tm) A (mset (got c))" and "length (got c) = want c"
proof -
  from assms(1) obtain D where
    len: "length (got c) \<le> want c"
    and rel: "rel_mset (produced_by ini tm) D (mset (got c @ result_queue p))"
    and sum: "D + mset (busy_items (workers p)) + mset (queued (task_queue p))
       + mset (queued (pending c)) = A"
    by (rule mp_invE)
  from assms(2) len show l: "length (got c) = want c" by (simp add: returned_def)
  from rel_mset_size [OF rel] have sD: "size D = length (got c) + length (result_queue p)"
    by simp
  from sum have "size D + size (mset (busy_items (workers p)))
       + size (mset (queued (task_queue p))) + size (mset (queued (pending c))) = size A"
    by (metis size_union)
  with sD l assms(3) have z: "length (result_queue p) = 0"
    "size (mset (busy_items (workers p))) = 0" "size (mset (queued (task_queue p))) = 0"
    "size (mset (queued (pending c))) = 0" by simp_all
  with sum have "D = A" by simp
  with rel z(1) show "rel_mset (produced_by ini tm) A (mset (got c))" by simp
qed

lemma start_clean_inv:
  assumes "approach p = ''multiprocessing''" "clean p"
  shows "\<exists>p1. (if started p = Some False then start p else Inr p) = Inr p1
           \<and> mp_inv (init_fn p) tm (mset xs)
                (\<lparr> pending = map Some xs, got = [], want = n \<rparr>, p1)"
proof (cases "started p = Some False")
  case False
  with assms(2) have "started p = Some True" by (simp add: clean_def)
  then show ?thesis using assms(2)
    by (auto simp: clean_def queued_map_Some intro!: mp_invI [where D = "{#}"])
next
  case True
  let ?p1 = "p\<lparr> workers := workers p @ map (\<lambda>g. (g, Starting)) [0..<n_gpus p],
                  started := Some True \<rparr>"
  have st: "start p = Inr ?p1" using True assms(1) by (simp add: start_def)
  from True assms(2) have io: "init_ok p" by (simp add: clean_def)
  have "list_all (worker_ok (init_fn p)) (map (\<lambda>g. (g, Starting)) [0..<n_gpus p])"
    using io by (auto simp: init_ok_def list_all_iff split: option.splits)
  with assms(2) have ok: "list_all (worker_ok (init_fn p)) (workers ?p1)"
    by (simp add: clean_def)
  have b: "busy_items (workers ?p1) = []"
    using assms(2) by (simp add: clean_def busy_items_append busy_items_Starting)
  have "mp_inv (init_fn p) tm (mset xs) (\<lparr> pending = map Some xs, got = [], want = n \<rparr>, ?p1)"
    using ok b assms(2)
    by (intro mp_invI [where D = "{#}"]) (simp_all add: clean_def queued_map_Some)
  with st True show ?thesis by simp
qed

lemma run_got_le:
  "length (got (fst cp)) \<le> want (fst cp) \<Longrightarrow>
   length (got (fst (run tm es cp))) \<le> want (fst (run tm es cp))"
proof (induction es arbitrary: cp)
  case Nil
  then show ?case by simp
next
  case (Cons e es)
  show ?case
  proof (cases e)
    case Main
    obtain c p where cp: "cp = (c, p)" by (cases cp) auto
    have "length (got (fst (main_step cp))) \<le> want (fst (main_step cp))"
      using Cons.prems cp
      by (auto simp: main_step_def split: list.splits)
    from Cons.IH [OF this] Main show ?thesis by simp
  next
    case (Worker k)
    from Cons.IH [of "(fst cp, worker_process_step tm k (snd cp))"] Cons.prems Worker
    show ?thesis by simp
  qed
qed

lemma pending_submitted:
  "map (\<lambda>(tid, task). Some (tid, func, normalize_multiprocessing task)) (zip task_ids tasks)
   = map Some (submitted func task_ids tasks)"
  by (simp add: submitted_def split_def)

lemma run_want: "want (fst (run tm es cp)) = want (fst cp)"
proof (induction es arbitrary: cp)
  case Nil
  show ?case by simp
next
  case (Cons e es)
  show ?case
  proof (cases e)
    case Main
    have "want (fst (main_step cp)) = want (fst cp)"
      by (cases cp) (auto simp: main_step_def split: list.splits)
    with Cons [of "main_step cp"] Main show ?thesis by simp
  next
    case (Worker k)
    with Cons [of "(fst cp, worker_process_step tm k (snd cp))"] show ?thesis by simp
  qed
qed

lemma execute_mp_clean:
  assumes "approach p = ''multiprocessing''" "clean p" "length tasks \<le> length task_ids"
    "fst (execute_multiprocessing sched func tm tasks task_ids p) = Some (Inr results)"
  shows "rel_mset (produced_by (init_fn p) tm) (mset (submitted func task_ids tasks)) (mset results)"
    and "length results = length tasks"
proof -
  let ?xs = "submitted func task_ids tasks"
  let ?c0 = "\<lparr> pending = map Some ?xs, got = [], want = length tasks \<rparr>"
  from start_clean_inv [OF assms(1,2), of tm ?xs "length tasks"] obtain p1 where
    st: "(if started p = Some False then start p else Inr p) = Inr p1"
    and inv: "mp_inv (init_fn p) tm (mset ?xs) (?c0, p1)" by blast
  obtain c p2 where r: "run tm sched (?c0, p1) = (c, p2)" by fastforce
  from assms(2) have sp: "started p = Some True \<or> started p = Some False"
    by (auto simp: clean_def)
  have ex: "execute_multiprocessing sched func tm tasks task_ids p
        = (if returned c then (Some (Inr (got c)), p2) else (None, p2))"
    using sp st r by (auto simp: execute_multiprocessing_def pending_submitted)
  with assms(4) have ret: "returned c" and res: "results = got c"
    by (auto split: if_splits)
  from run_inv [OF inv, of sched] r have inv': "mp_inv (init_fn p) tm (mset ?xs) (c, p2)"
    by simp
  have wc: "want c = length tasks"
    using run_want [of tm sched "(?c0, p1)"] r by simp
  have sz: "want c = size (mset ?xs)" using wc assms(3) by (simp add: submitted_def)
  from mp_inv_returned [OF inv' ret sz] res wc
  show "rel_mset (produced_by (init_fn p) tm) (mset ?xs) (mset results)"
    and "length results = length tasks" by simp_all
qed

lemma execute_mp_length:
  assumes "fst (execute_multiprocessing sched func tm tasks task_ids p) = Some (Inr results)"
  shows "length results = length tasks"
proof -
  from assms obtain p1 c p2 where
    r: "run tm sched (\<lparr> pending = map (\<lambda>(tid, task). Some (tid, func, normalize_multiprocessing task))
                                       (zip task_ids tasks),
                          got = [], want = length tasks \<rparr>, p1) = (c, p2)"
    and ret: "returned c" and res: "results = got c"
    by (auto simp: execute_multiprocessing_def split: option.splits sum.splits prod.splits if_splits)
  from run_got_le [of _ tm sched] r run_want [of tm sched] 
  have "length (got c) \<le> want c" "want c = length tasks"
    by (metis collector.select_convs(2,3) fst_conv list.size(3) zero_le)+
  with ret res show ?thesis by (simp add: returned_def)
qed

lemma sort_key_run_task: "sort_key_of (run_task func tm tid g m args kw) = tid"
  by (simp add: run_task_def success_outcome_def failure_outcome_def sort_key_of_def dict_get_def
      Let_def split: sum.splits)

lemma sort_key_thread_outcome: "sort_key_of (thread_outcome q func tm (i, tid, task)) = tid"
  by (simp add: thread_outcome_def sort_key_run_task)

lemma thread_outcome_gpu_id:
  "dict_get (thread_outcome q func tm (i, tid, task)) ''gpu_id'' = Some (ODev (i mod n_gpus q))"
  by (simp add: thread_outcome_def run_task_gpu_id)

lemma enumerate_zip_nth:
  "i < length tasks \<Longrightarrow> i < length task_ids \<Longrightarrow>
   List.enumerate 0 (zip task_ids tasks) ! i = (i, task_ids ! i, tasks ! i)"
  by (simp add: nth_enumerate_eq)

lemma thread_outcome_in_results:
  assumes "i < length tasks" "i < length task_ids"
  shows "thread_outcome q func tm (i, task_ids ! i, tasks ! i)
         \<in> set (as_completed picks (map (thread_outcome q func tm)
                    (List.enumerate 0 (zip task_ids tasks))))"
proof -
  let ?en = "List.enumerate 0 (zip task_ids tasks)"
  have "i < length ?en" using assms by simp
  then have "?en ! i \<in> set ?en" by (rule nth_mem)
  with enumerate_zip_nth [OF assms]
  have "thread_outcome q func tm (i, task_ids ! i, tasks ! i) \<in> set (map (thread_outcome q func tm) ?en)"
    by (metis image_eqI set_map)
  moreover have "set (as_completed picks (map (thread_outcome q func tm) ?en))
                 = set (map (thread_outcome q func tm) ?en)"
    using mset_as_completed by (metis set_mset_mset)
  ultimately show ?thesis by simp
qed

lemma execute_sorted:
  assumes "fst (execute picks sched func tm tasks ids p) = Some (Inr outs)"
  shows "ascending outs"
proof (cases "tasks = []")
  case True
  with assms show ?thesis by (simp add: execute_def ascending_def)
next
  case False
  let ?r = "if approach p = ''threading''
            then (case execute_threading picks func tm tasks (given_ids (length tasks) ids) p of
                    (r, p') \<Rightarrow> (Some r, p'))
            else execute_multiprocessing sched func tm tasks (given_ids (length tasks) ids) p"
  obtain a b where ab: "?r = (a, b)" by fastforce
  from assms False ab obtain results where "py_sorted results = Inr outs"
    by (simp add: execute_def Let_def split: option.splits sum.splits)
  from py_sorted_Inr [OF this] show ?thesis by simp
qed

lemma threading_keys:
  "sort_key_of ` set (as_completed picks (map (thread_outcome q func tm)
                        (List.enumerate 0 (zip l ts))))
   \<subseteq> set (take (length ts) l)"
proof
  let ?en = "List.enumerate 0 (zip l ts)"
  let ?res = "as_completed picks (map (thread_outcome q func tm) ?en)"
  fix k assume "k \<in> sort_key_of ` set ?res"
  then obtain r where r: "r \<in> set ?res" "k = sort_key_of r" by blast
  have "set ?res = set (map (thread_outcome q func tm) ?en)"
    using mset_as_completed by (metis set_mset_mset)
  with r obtain x where x: "x \<in> set ?en" "r = thread_outcome q func tm x" by auto
  obtain n tid task where xx: "x = (n, tid, task)" by (cases x) auto
  with x(1) have n: "n < length l" "n < length ts" "tid = l ! n"
    by (auto simp: in_set_enumerate_eq)
  then have "n < length (take (length ts) l)" "take (length ts) l ! n = tid" by simp_all
  then have "tid \<in> set (take (length ts) l)" by (metis nth_mem)
  with r x xx show "k \<in> set (take (length ts) l)" by (simp add: sort_key_thread_outcome)
qed

lemma execute_threading_sorted:
  assumes "approach q = ''threading''" "ready q" "0 < n_gpus q" "ts \<noteq> []"
    "list_all (\<lambda>a. list_all (\<lambda>b. id_lt a b \<noteq> None) (take (length ts) (given_ids (length ts) ids)))
       (take (length ts) (given_ids (length ts) ids))"
  shows "\<exists>outs. fst (execute picks sched func tm ts ids q) = Some (Inr outs)
           \<and> ascending outs
           \<and> mset outs = mset (map (thread_outcome (after_init q) func tm)
                                 (List.enumerate 0 (zip (given_ids (length ts) ids) ts)))"
proof -
  let ?l = "given_ids (length ts) ids"
  let ?en = "List.enumerate 0 (zip ?l ts)"
  let ?res = "as_completed picks (map (thread_outcome (after_init q) func tm) ?en)"
  have ex: "fst (execute picks sched func tm ts ids q) = Some (py_sorted ?res)"
    using execute_on_threading [OF assms(1,4,2,3)] by simp
  have "\<forall>a\<in>set ?res. \<forall>b\<in>set ?res. id_lt (sort_key_of a) (sort_key_of b) \<noteq> None"
  proof (intro ballI)
    fix a b assume "a \<in> set ?res" "b \<in> set ?res"
    with threading_keys [of picks "after_init q" func tm ?l ts]
    have "sort_key_of a \<in> set (take (length ts) ?l)" "sort_key_of b \<in> set (take (length ts) ?l)"
      by auto
    with assms(5) show "id_lt (sort_key_of a) (sort_key_of b) \<noteq> None"
      by (simp add: list_all_iff)
  qed
  from py_sorted_same_kind [OF this] obtain ys where ys: "py_sorted ?res = Inr ys" by blast
  from py_sorted_Inr [OF ys] have "mset ys = mset ?res" "ascending ys" by simp_all
  with ex ys show ?thesis by (simp add: mset_as_completed)
qed

section \<open>Auxiliary facts: what the returned list holds\<close>

lemma task_id_run_task: "dict_get (run_task func tm tid g m args kw) ''task_id'' = Some (OId tid)"
  by (simp add: run_task_def success_outcome_def failure_outcome_def dict_get_def Let_def
      split: sum.splits)

lemma execute_threading_member:
  assumes "approach p = ''threading''" "ready p" "0 < n_gpus p"
    "i < length tasks" "i < length (given_ids (length tasks) ids)"
    "fst (execute picks sched func tm tasks ids p) = Some (Inr outs)"
  shows "thread_outcome (after_init p) func tm (i, given_ids (length tasks) ids ! i, tasks ! i)
         \<in> set outs"
proof -
  let ?l = "given_ids (length tasks) ids"
  let ?res = "as_completed picks (map (thread_outcome (after_init p) func tm)
                 (List.enumerate 0 (zip ?l tasks)))"
  from assms(4) have ne: "tasks \<noteq> []" by auto
  from execute_on_threading [OF assms(1) ne assms(2,3)] assms(6)
  have "py_sorted ?res = Inr outs" by simp
  from py_sorted_set [OF this] thread_outcome_in_results [OF assms(4,5)]
  show ?thesis by simp
qed

lemma rel_mset_member:
  assumes "rel_mset R M N" "a \<in># M"
  shows "\<exists>b. b \<in># N \<and> R a b"
proof -
  from assms(1) obtain xs ys where xy: "mset xs = M" "mset ys = N" "list_all2 R xs ys"
    by (auto simp: rel_mset_def)
  from assms(2) xy(1) have "a \<in> set xs" by auto
  then obtain i where i: "i < length xs" "xs ! i = a" by (auto simp: in_set_conv_nth)
  from xy(3) i have "R a (ys ! i)" "i < length ys"
    by (auto simp: list_all2_conv_all_nth)
  with xy(2) show ?thesis by (metis nth_mem set_mset_mset)
qed

lemma produced_by_failure:
  assumes "produced_by ini tm (tid, func, args, kw) r" "\<forall>kw'. func args kw' = Inl msg"
  shows "\<exists>g. r = failure_outcome tid g msg"
proof -
  from assms(1) obtain g where "r = run_task func tm tid g (init_model ini g) args kw"
    by (auto simp: produced_by_def split: option.splits oval.splits)
  with assms(2) show ?thesis by (auto simp: run_task_def Let_def)
qed

lemma execute_mp_outcomes:
  assumes "approach p = ''multiprocessing''" "clean p" "tasks \<noteq> []"
    "length tasks \<le> length (given_ids (length tasks) ids)"
    "fst (execute picks sched func tm tasks ids p) = Some (Inr outs)"
  shows "rel_mset (produced_by (init_fn p) tm)
           (mset (submitted func (given_ids (length tasks) ids) tasks)) (mset outs)"
    and "length outs = length tasks"
proof -
  let ?l = "given_ids (length tasks) ids"
  let ?e = "execute_multiprocessing sched func tm tasks ?l p"
  obtain a b where ab: "?e = (a, b)" by fastforce
  from assms(1) have nt: "approach p \<noteq> ''threading''" by simp
  from assms(5) assms(3) nt ab obtain results where
    r: "a = Some (Inr results)" and s: "py_sorted results = Inr outs"
    by (auto simp: execute_def Let_def split: option.splits sum.splits)
  from r ab have "fst ?e = Some (Inr results)" by simp
  from execute_mp_clean [OF assms(1,2,4) this] py_sorted_Inr [OF s]
  show "rel_mset (produced_by (init_fn p) tm) (mset (submitted func ?l tasks)) (mset outs)"
    and "length outs = length tasks"
    by (simp_all, metis size_mset)
qed

lemma execute_length_mp:
  assumes "approach p \<noteq> ''threading''"
    "fst (execute picks sched func tm tasks ids p) = Some (Inr outs)"
  shows "length outs = length tasks"
proof (cases "tasks = []")
  case True
  with assms(2) show ?thesis by (simp add: execute_def)
next
  case False
  let ?e = "execute_multiprocessing sched func tm tasks (given_ids (length tasks) ids) p"
  obtain a b where ab: "?e = (a, b)" by fastforce
  from assms False ab obtain results where
    r: "a = Some (Inr results)" and s: "py_sorted results = Inr outs"
    by (auto simp: execute_def Let_def split: option.splits sum.splits)
  from r ab have "fst ?e = Some (Inr results)" by simp
  from execute_mp_length [OF this] py_sorted_Inr [OF s] show ?thesis by (metis size_mset)
qed

lemma run_task_shaped: "well_shaped (run_task func tm tid g m args kw)"
  by (simp add: well_shaped_def success_shaped_def failure_shaped_def run_task_def
      success_outcome_def failure_outcome_def dict_get_def Let_def split: sum.splits)

lemma failure_outcome_shaped: "well_shaped (failure_outcome tid g msg)"
  by (simp add: well_shaped_def failure_shaped_def failure_outcome_def dict_get_def)

lemma worker_thread_shaped: "worker_thread q func tm x = Inr r \<Longrightarrow> well_shaped r"
  by (auto simp: worker_thread_def run_task_shaped split: prod.splits option.splits)

lemma execute_threading_shaped:
  assumes "fst (execute_threading picks func tm tasks task_ids p) = Inr results"
  shows "list_all well_shaped results"
proof -
  from assms obtain q prepared where
    c: "collect_results (as_completed picks (map (worker_thread q func tm) prepared)) = Inr results"
    by (auto simp: execute_threading_def split: prod.splits option.splits sum.splits if_splits)
  from collect_results_Inr [OF c]
  have "set (map Inr results) = set (map (worker_thread q func tm) prepared)"
    using mset_as_completed by (metis set_mset_mset)
  then have "\<forall>r\<in>set results. \<exists>x. worker_thread q func tm x = Inr r"
    by (metis (no_types, lifting) image_iff list.set_map)
  then show ?thesis using worker_thread_shaped by (auto simp: list_all_iff)
qed

lemma worker_step_shaped:
  assumes "list_all well_shaped (result_queue p)"
  shows "list_all well_shaped (result_queue (worker_process_step tm k p))"
proof (cases "k < length (workers p)")
  case False
  with assms show ?thesis by (simp add: worker_process_step_def)
next
  case True
  obtain g w where gw: "workers p ! k = (g, w)" by fastforce
  show ?thesis
  proof (cases w)
    case Starting
    with True gw assms show ?thesis
      by (auto simp: worker_process_step_def failure_outcome_shaped split: option.splits sum.splits)
  next
    case (Looping m n)
    with True gw assms show ?thesis
      by (auto simp: worker_process_step_def split: list.splits option.splits)
  next
    case (Busy m n it)
    obtain tid func args kw where "it = (tid, func, args, kw)" by (cases it) auto
    with Busy True gw assms show ?thesis
      by (simp add: worker_process_step_def run_task_shaped)
  next
    case Exited
    with True gw assms show ?thesis by (simp add: worker_process_step_def)
  qed
qed

lemma main_step_shaped:
  assumes "list_all well_shaped (got (fst cp) @ result_queue (snd cp))"
  shows "list_all well_shaped (got (fst (main_step cp)) @ result_queue (snd (main_step cp)))"
  using assms by (cases cp) (auto simp: main_step_def split: list.splits)

lemma run_shaped:
  "list_all well_shaped (got (fst cp) @ result_queue (snd cp))
   \<Longrightarrow> list_all well_shaped (got (fst (run tm es cp)) @ result_queue (snd (run tm es cp)))"
proof (induction es arbitrary: cp)
  case Nil
  then show ?case by simp
next
  case (Cons e es)
  show ?case
  proof (cases e)
    case Main
    from Cons.IH [OF main_step_shaped [OF Cons.prems]] Main show ?thesis by simp
  next
    case (Worker k)
    have "list_all well_shaped (got (fst cp) @ result_queue (worker_process_step tm k (snd cp)))"
      using Cons.prems worker_step_shaped [of "snd cp" tm k] by simp
    from Cons.IH [of "(fst cp, worker_process_step tm k (snd cp))"] this Worker
    show ?thesis by simp
  qed
qed

lemma execute_mp_shaped:
  assumes "list_all well_shaped (result_queue p)"
    "fst (execute_multiprocessing sched func tm tasks task_ids p) = Some (Inr results)"
  shows "list_all well_shaped results"
proof -
  let ?c0 = "\<lparr> pending = map (\<lambda>(tid, task). Some (tid, func, normalize_multiprocessing task))
                                (zip task_ids tasks), got = [], want = length tasks \<rparr>"
  from assms(2) obtain p1 c p2 where
    p1: "p1 = p \<or> start p = Inr p1" and r: "run tm sched (?c0, p1) = (c, p2)"
    and res: "results = got c"
    by (auto simp: execute_multiprocessing_def
        split: option.splits sum.splits prod.splits if_splits)
  from p1 have "result_queue p1 = result_queue p"
    by (auto simp: start_def split: if_splits option.splits bool.splits)
  with assms(1) have "list_all well_shaped (got (fst (?c0, p1)) @ result_queue (snd (?c0, p1)))"
    by simp
  from run_shaped [OF this, of tm sched] r res show ?thesis by simp
qed

lemma submitted_nth:
  "K < length tasks \<Longrightarrow> K < length l \<Longrightarrow>
   submitted func l tasks ! K = (l ! K, func, normalize_multiprocessing (tasks ! K))
   \<and> K < length (submitted func l tasks)"
  by (simp add: submitted_def)

section \<open>Auxiliary facts: a schedule under which the isolated strategy returns\<close>

lemma run_append: "run tm (es @ fs) cp = run tm fs (run tm es cp)"
proof (induction es arbitrary: cp)
  case Nil
  show ?case by simp
next
  case (Cons e es)
  then show ?case by (cases e) simp_all
qed

lemma serve_all:
  assumes "task_queue p = []" "\<not> shutdown_event p" "0 < n_gpus p" "workers p \<noteq> []"
    "workers p ! 0 = (0, Looping m k)" "pending c = map Some xs"
  shows "\<exists>c' p'. run tm (concat (replicate (length xs) [Main, Worker 0, Worker 0])) (c, p) = (c', p')
           \<and> pending c' = [] \<and> got c' = got c \<and> want c' = want c
           \<and> result_queue p' = result_queue p @ map (item_outcome tm 0 m) xs"
  using assms
proof (induction xs arbitrary: c p k)
  case Nil
  then show ?case by simp
next
  case (Cons x xs)
  obtain tid func args kw where x: "x = (tid, func, args, kw)" by (cases x) auto
  let ?c1 = "c\<lparr> pending := map Some xs \<rparr>"
  let ?p1 = "p\<lparr> task_queue := [Some x] \<rparr>"
  have nf: "\<not> queue_full p" using Cons.prems(1,3) by (simp add: queue_full_def)
  have s1: "main_step (c, p) = (?c1, ?p1)"
    using Cons.prems(1,6) nf by (simp add: main_step_def)
  have len: "0 < length (workers p)" using Cons.prems(4) by simp
  let ?p2 = "set_worker 0 (Busy m (Suc k) x) (?p1\<lparr> task_queue := [] \<rparr>)"
  have s2: "worker_process_step tm 0 ?p1 = ?p2"
    using len Cons.prems(2,5) by (simp add: worker_process_step_def)
  have w2: "workers ?p2 ! 0 = (0, Busy m (Suc k) x)" "0 < length (workers ?p2)"
    using len Cons.prems(5) by simp_all
  let ?p3 = "put_result (run_task func tm tid 0 m args kw) (set_worker 0 (Looping m (Suc k)) ?p2)"
  have s3: "worker_process_step tm 0 ?p2 = ?p3"
    using w2 x by (simp add: worker_process_step_def)
  have a: "task_queue ?p3 = []" "\<not> shutdown_event ?p3" "0 < n_gpus ?p3" "workers ?p3 \<noteq> []"
    "workers ?p3 ! 0 = (0, Looping m (Suc k))" "pending ?c1 = map Some xs"
    using Cons.prems(2,3,4,5) len by (simp_all add: put_result_def set_worker_def)
  from Cons.IH [OF a] obtain c' p' where
    r: "run tm (concat (replicate (length xs) [Main, Worker 0, Worker 0])) (?c1, ?p3) = (c', p')"
    and f: "pending c' = []" "got c' = got ?c1" "want c' = want ?c1"
       "result_queue p' = result_queue ?p3 @ map (item_outcome tm 0 m) xs" by blast
  have rq: "result_queue ?p3 = result_queue p @ [item_outcome tm 0 m x]"
    by (simp add: item_outcome_def x)
  have "run tm (concat (replicate (length (x # xs)) [Main, Worker 0, Worker 0])) (c, p) = (c', p')"
    using s1 s2 s3 r by simp
  with f rq show ?case by simp
qed

lemma collect_all:
  assumes "pending c = []" "length (got c) + length rs \<le> want c" "result_queue p = rs @ rest"
  shows "\<exists>c' p'. run tm (replicate (length rs) Main) (c, p) = (c', p')
           \<and> pending c' = [] \<and> got c' = got c @ rs \<and> want c' = want c"
  using assms
proof (induction rs arbitrary: c p)
  case Nil
  then show ?case by simp
next
  case (Cons r rs)
  let ?c1 = "c\<lparr> got := got c @ [r] \<rparr>"
  let ?p1 = "p\<lparr> result_queue := rs @ rest \<rparr>"
  have s: "main_step (c, p) = (?c1, ?p1)"
    using Cons.prems by (simp add: main_step_def)
  have a: "pending ?c1 = []" "length (got ?c1) + length rs \<le> want ?c1"
    "result_queue ?p1 = rs @ rest" using Cons.prems by simp_all
  from Cons.IH [OF a] s show ?case by simp
qed

lemma execute_mp_can_return:
  assumes "approach p = ''multiprocessing''" "started p = Some False" "workers p = []"
    "task_queue p = []" "result_queue p = []" "\<not> shutdown_event p" "0 < n_gpus p"
    "init_ok p" "length tasks \<le> length task_ids"
  shows "fst (execute_multiprocessing (serial_schedule (length tasks)) func tm tasks task_ids p)
         = Some (Inr (map (item_outcome tm 0 (init_model (init_fn p) 0))
                        (submitted func task_ids tasks)))"
proof -
  let ?xs = "submitted func task_ids tasks"
  let ?n = "length tasks"
  let ?m = "init_model (init_fn p) 0"
  have lx: "length ?xs = ?n" using assms(9) by (simp add: submitted_def)
  let ?p1 = "p\<lparr> workers := workers p @ map (\<lambda>g. (g, Starting)) [0..<n_gpus p],
                  started := Some True \<rparr>"
  let ?c0 = "\<lparr> pending = map Some ?xs, got = [], want = ?n \<rparr>"
  have st: "start p = Inr ?p1" using assms(1,2) by (simp add: start_def)
  have wp: "workers ?p1 = (0, Starting) # map (\<lambda>g. (g, Starting)) [Suc 0..<n_gpus p]"
    using assms(3,7) by (simp add: upt_conv_Cons)
  let ?p2 = "set_worker 0 (Looping ?m 0) ?p1"
  have s0: "worker_process_step tm 0 ?p1 = ?p2"
  proof (cases "init_fn p")
    case None
    then have "init_fn ?p1 = None" by simp
    with wp show ?thesis unfolding worker_process_step_def init_model_def None
      by (simp del: set_worker_fields)
  next
    case (Some f)
    from assms(8,7) Some have "\<not> isl (f 0)"
      by (simp add: init_ok_def list_all_iff)
    then obtain m where m: "f 0 = Inr m" by (cases "f 0") auto
    from Some have "init_fn ?p1 = Some f" by simp
    with wp m show ?thesis unfolding worker_process_step_def init_model_def Some
      by (simp del: set_worker_fields)
  qed
  have a: "task_queue ?p2 = []" "\<not> shutdown_event ?p2" "0 < n_gpus ?p2" "workers ?p2 \<noteq> []"
    "workers ?p2 ! 0 = (0, Looping ?m 0)" "pending ?c0 = map Some ?xs"
    using assms(3,4,6,7) wp by (simp_all add: set_worker_def)
  from serve_all [OF a, of tm] obtain c3 p3 where
    r3: "run tm (concat (replicate (length ?xs) [Main, Worker 0, Worker 0])) (?c0, ?p2) = (c3, p3)"
    and f3: "pending c3 = []" "got c3 = got ?c0" "want c3 = want ?c0"
       "result_queue p3 = result_queue ?p2 @ map (item_outcome tm 0 ?m) ?xs" by blast
  let ?rs = "map (item_outcome tm 0 ?m) ?xs"
  have b: "pending c3 = []" "length (got c3) + length ?rs \<le> want c3" "result_queue p3 = ?rs @ []"
    using f3 lx assms(5) by (simp_all add: set_worker_def)
  from collect_all [OF b, of tm] obtain c4 p4 where
    r4: "run tm (replicate (length ?rs) Main) (c3, p3) = (c4, p4)"
    and f4: "pending c4 = []" "got c4 = got c3 @ ?rs" "want c4 = want c3" by blast
  have "run tm (serial_schedule ?n) (?c0, ?p1) = (c4, p4)"
    using s0 r3 r4 lx by (simp add: serial_schedule_def run_append)
  moreover have "returned c4" "got c4 = ?rs" using f4 f3 lx by (simp_all add: returned_def)
  ultimately show ?thesis
    using assms(2) st by (simp add: execute_multiprocessing_def pending_submitted)
qed

lemma sort_key_item_outcome: "sort_key_of (item_outcome tm g m x) = fst x"
  by (cases x) (simp add: item_outcome_def sort_key_run_task)

lemma submitted_keys: "set (map fst (submitted func l tasks)) \<subseteq> set (take (length tasks) l)"
proof
  fix t assume "t \<in> set (map fst (submitted func l tasks))"
  then obtain a where "(t, a) \<in> set (zip l tasks)"
    by (auto simp: submitted_def)
  then obtain n where n: "n < length l" "n < length tasks" "l ! n = t"
    by (auto simp: in_set_zip)
  then have "n < length (take (length tasks) l)" "take (length tasks) l ! n = t" by simp_all
  then show "t \<in> set (take (length tasks) l)" by (metis nth_mem)
qed

lemma execute_mp_serial:
  assumes "fresh_mp p" "0 < n_gpus p" "init_ok p" "tasks \<noteq> []"
    "length tasks \<le> length (given_ids (length tasks) ids)"
    "list_all (\<lambda>a. list_all (\<lambda>b. id_lt a b \<noteq> None)
                 (take (length tasks) (given_ids (length tasks) ids)))
        (take (length tasks) (given_ids (length tasks) ids))"
  shows "\<exists>outs. fst (execute picks (serial_schedule (length tasks)) func tm tasks ids p)
                 = Some (Inr outs)
           \<and> mset outs = mset (map (item_outcome tm 0 (init_model (init_fn p) 0))
                                 (submitted func (given_ids (length tasks) ids) tasks))
           \<and> length outs = length tasks"
proof -
  let ?l = "given_ids (length tasks) ids"
  let ?res = "map (item_outcome tm 0 (init_model (init_fn p) 0)) (submitted func ?l tasks)"
  let ?e = "execute_multiprocessing (serial_schedule (length tasks)) func tm tasks ?l p"
  from assms(1) have f: "approach p = ''multiprocessing''" "started p = Some False"
    "workers p = []" "task_queue p = []" "result_queue p = []" "\<not> shutdown_event p"
    by (simp_all add: fresh_mp_def)
  from execute_mp_can_return [OF f assms(2,3,5), of func tm]
  have e: "fst ?e = Some (Inr ?res)" .
  obtain b where eb: "?e = (Some (Inr ?res), b)" using e by (cases ?e) auto
  have ex: "fst (execute picks (serial_schedule (length tasks)) func tm tasks ids p)
            = Some (py_sorted ?res)"
    using f(1) assms(4) eb by (simp add: execute_def Let_def)
  have "\<forall>a\<in>set ?res. \<forall>b\<in>set ?res. id_lt (sort_key_of a) (sort_key_of b) \<noteq> None"
  proof (intro ballI)
    fix a b assume ab: "a \<in> set ?res" "b \<in> set ?res"
    have k: "sort_key_of r \<in> set (map fst (submitted func ?l tasks))" if "r \<in> set ?res" for r
    proof -
      from that obtain x where "x \<in> set (submitted func ?l tasks)"
        "r = item_outcome tm 0 (init_model (init_fn p) 0) x" by auto
      then show ?thesis by (simp add: sort_key_item_outcome)
    qed
    from k [OF ab(1)] k [OF ab(2)]
    have "sort_key_of a \<in> set (map fst (submitted func ?l tasks))"
      "sort_key_of b \<in> set (map fst (submitted func ?l tasks))" .
    with submitted_keys [of func ?l tasks]
    have "sort_key_of a \<in> set (take (length tasks) ?l)"
      "sort_key_of b \<in> set (take (length tasks) ?l)" by blast+
    with assms(6) show "id_lt (sort_key_of a) (sort_key_of b) \<noteq> None"
      by (simp add: list_all_iff)
  qed
  from py_sorted_same_kind [OF this] obtain ys where ys: "py_sorted ?res = Inr ys" by blast
  from py_sorted_Inr [OF ys] have m: "mset ys = mset ?res" by simp
  then have "size (mset ys) = size (mset ?res)" by simp
  then have "length ys = length tasks" using assms(5) by (simp add: submitted_def)
  with ex ys m show ?thesis by simp
qed

section \<open>Auxiliary facts: the isolated strategy can always finish\<close>

lemma sum_list_map_update:
  fixes f :: "'a \<Rightarrow> nat"
  shows "k < length ws \<Longrightarrow>
         sum_list (map f (ws[k := x])) + f (ws ! k) = sum_list (map f ws) + f x"
proof (induction ws arbitrary: k)
  case Nil
  then show ?case by simp
next
  case (Cons a ws)
  show ?case
  proof (cases k)
    case 0
    then show ?thesis by simp
  next
    case (Suc j)
    with Cons.prems have "j < length ws" by simp
    from Cons.IH [OF this] Suc show ?thesis by simp
  qed
qed

lemma alive_ok_update:
  "list_all (alive_ok ini) ws \<Longrightarrow> alive_ok ini w \<Longrightarrow> list_all (alive_ok ini) (ws[k := w])"
  unfolding list_all_iff using set_update_subset_insert by fastforce

lemma live_invI:
  "init_fn q = ini \<Longrightarrow> \<not> shutdown_event q \<Longrightarrow> 0 < n_gpus q \<Longrightarrow> workers q \<noteq> []
   \<Longrightarrow> list_all (alive_ok ini) (workers q)
   \<Longrightarrow> list_all (\<lambda>x. x \<noteq> None) (task_queue q)
   \<Longrightarrow> list_all (\<lambda>x. x \<noteq> None) (pending c)
   \<Longrightarrow> length (got c) + length (result_queue q) + sum_list (map busy_weight (workers q))
         + length (task_queue q) + length (pending c) = want c
   \<Longrightarrow> live_inv ini (c, q)"
  by (simp add: live_inv_def)

lemma live_invD:
  assumes "live_inv ini (c, q)"
  shows "init_fn q = ini" "\<not> shutdown_event q" "0 < n_gpus q" "workers q \<noteq> []"
    "list_all (alive_ok ini) (workers q)"
    "list_all (\<lambda>x. x \<noteq> None) (task_queue q)"
    "list_all (\<lambda>x. x \<noteq> None) (pending c)"
    "length (got c) + length (result_queue q) + sum_list (map busy_weight (workers q))
         + length (task_queue q) + length (pending c) = want c"
  using assms by (simp_all add: live_inv_def)

lemma set_worker_more_fields [simp]:
  "shutdown_event (set_worker k w p) = shutdown_event p"
  "n_gpus (set_worker k w p) = n_gpus p"
  "shutdown_event (put_result r p) = shutdown_event p"
  "n_gpus (put_result r p) = n_gpus p"
  by (simp_all add: set_worker_def put_result_def)

text \<open>What a worker step does, by the state of the worker, on a live pool.\<close>

lemma worker_step_cases:
  assumes "live_inv ini (c, q)" "k < length (workers q)" "workers q ! k = (g, w)"
  shows "(w = Starting \<longrightarrow>
            worker_process_step tm k q = set_worker k (Looping (init_model ini g) 0) q)
       \<and> (\<forall>m n. w = Looping m n \<and> task_queue q = [] \<longrightarrow> worker_process_step tm k q = q)
       \<and> (\<forall>m n x rest. w = Looping m n \<and> task_queue q = Some x # rest \<longrightarrow>
            worker_process_step tm k q
            = set_worker k (Busy m (Suc n) x) (q\<lparr> task_queue := rest \<rparr>))
       \<and> (\<forall>m n tid func args kw. w = Busy m n (tid, func, args, kw) \<longrightarrow>
            worker_process_step tm k q
            = put_result (run_task func tm tid g m args kw) (set_worker k (Looping m n) q))
       \<and> w \<noteq> Exited"
proof -
  note d = live_invD [OF assms(1)]
  from d(5) assms(2,3) have ok: "alive_ok ini (g, w)" by (metis list_all_length)
  have a: "w = Starting \<longrightarrow>
            worker_process_step tm k q = set_worker k (Looping (init_model ini g) 0) q"
  proof
    assume s: "w = Starting"
    show "worker_process_step tm k q = set_worker k (Looping (init_model ini g) 0) q"
    proof (cases ini)
      case None
      with s assms(2,3) d(1) show ?thesis
        by (simp add: worker_process_step_def init_model_def)
    next
      case (Some f)
      with ok s obtain m where "f g = Inr m" by (cases "f g") auto
      with Some s assms(2,3) d(1) show ?thesis
        by (simp add: worker_process_step_def init_model_def)
    qed
  qed
  have b: "\<forall>m n. w = Looping m n \<and> task_queue q = [] \<longrightarrow> worker_process_step tm k q = q"
    using assms(2,3) d(2) by (simp add: worker_process_step_def)
  have c: "\<forall>m n x rest. w = Looping m n \<and> task_queue q = Some x # rest \<longrightarrow>
            worker_process_step tm k q
            = set_worker k (Busy m (Suc n) x) (q\<lparr> task_queue := rest \<rparr>)"
    using assms(2,3) d(2) by (simp add: worker_process_step_def)
  have e: "\<forall>m n tid func args kw. w = Busy m n (tid, func, args, kw) \<longrightarrow>
            worker_process_step tm k q
            = put_result (run_task func tm tid g m args kw) (set_worker k (Looping m n) q)"
    using assms(2,3) by (simp add: worker_process_step_def)
  from ok have f: "w \<noteq> Exited" by simp
  from a b c e f show ?thesis by blast
qed

lemma worker_step_live:
  assumes "live_inv ini (c, q)"
  shows "live_inv ini (c, worker_process_step tm k q)"
proof (cases "k < length (workers q)")
  case False
  then show ?thesis using assms by (simp add: worker_process_step_def)
next
  case True
  obtain g w where gw: "workers q ! k = (g, w)" by fastforce
  note d = live_invD [OF assms]
  note cs = worker_step_cases [OF assms True gw, of tm]
  from d(5) True gw have ok: "alive_ok ini (g, w)" by (metis list_all_length)
  have bw: "sum_list (map busy_weight ((workers q)[k := (g, w')])) + busy_weight (g, w)
            = sum_list (map busy_weight (workers q)) + busy_weight (g, w')" for w'
    using sum_list_map_update [OF True, of busy_weight "(g, w')"] gw by simp
  have al: "alive_ok ini (g, w') \<Longrightarrow> list_all (alive_ok ini) ((workers q)[k := (g, w')])" for w'
    using alive_ok_update [OF d(5)] by simp
  show ?thesis
  proof (cases w)
    case Starting
    with cs have st: "worker_process_step tm k q = set_worker k (Looping (init_model ini g) 0) q"
      by blast
    have a: "alive_ok ini (g, Looping (init_model ini g) 0)" by simp
    show ?thesis unfolding st
      using d al [OF a] bw [of "Looping (init_model ini g) 0"] Starting gw
      by (intro live_invI) simp_all
  next
    case (Looping m n)
    show ?thesis
    proof (cases "task_queue q")
      case Nil
      with cs Looping have "worker_process_step tm k q = q" by blast
      with assms show ?thesis by simp
    next
      case (Cons x rest)
      with d(6) obtain it where it: "x = Some it" by (cases x) auto
      with cs Looping Cons
      have st: "worker_process_step tm k q
                = set_worker k (Busy m (Suc n) it) (q\<lparr> task_queue := rest \<rparr>)" by blast
      have a: "alive_ok ini (g, Busy m (Suc n) it)" using ok Looping by simp
      show ?thesis unfolding st
        using d al [OF a] bw [of "Busy m (Suc n) it"] Looping gw Cons
        by (intro live_invI) simp_all
    qed
  next
    case (Busy m n it)
    obtain tid func args kw where it: "it = (tid, func, args, kw)" by (cases it) auto
    with cs Busy
    have st: "worker_process_step tm k q
              = put_result (run_task func tm tid g m args kw) (set_worker k (Looping m n) q)"
      by blast
    have a: "alive_ok ini (g, Looping m n)" using ok Busy by simp
    show ?thesis unfolding st
      using d al [OF a] bw [of "Looping m n"] Busy gw
      by (intro live_invI) simp_all
  next
    case Exited
    with cs show ?thesis by blast
  qed
qed

lemma main_step_live:
  assumes "live_inv ini cp"
  shows "live_inv ini (main_step cp)"
proof -
  obtain c q where cp: "cp = (c, q)" by (cases cp) auto
  note d = live_invD [OF assms [unfolded cp]]
  show ?thesis
  proof (cases "pending c")
    case (Cons x rest)
    show ?thesis
    proof (cases "queue_full q")
      case True
      with Cons have "main_step (c, q) = (c, q)" by (simp add: main_step_def)
      with assms cp show ?thesis by simp
    next
      case False
      with Cons have st: "main_step (c, q)
          = (c\<lparr> pending := rest \<rparr>, q\<lparr> task_queue := task_queue q @ [x] \<rparr>)"
        by (simp add: main_step_def)
      show ?thesis unfolding cp st
        using d Cons by (intro live_invI) simp_all
    qed
  next
    case Nil
    show ?thesis
    proof (cases "length (got c) < want c")
      case False
      with Nil have "main_step (c, q) = (c, q)" by (simp add: main_step_def)
      with assms cp show ?thesis by simp
    next
      case True
      show ?thesis
      proof (cases "result_queue q")
        case rq: Nil
        with Nil True have "main_step (c, q) = (c, q)" by (simp add: main_step_def)
        with assms cp show ?thesis by simp
      next
        case rq: (Cons r rest)
        with Nil True have st: "main_step (c, q)
            = (c\<lparr> got := got c @ [r] \<rparr>, q\<lparr> result_queue := rest \<rparr>)"
          by (simp add: main_step_def)
        show ?thesis unfolding cp st
          using d rq Nil by (intro live_invI) simp_all
      qed
    qed
  qed
qed

lemma run_live: "live_inv ini cp \<Longrightarrow> live_inv ini (run tm es cp)"
proof (induction es arbitrary: cp)
  case Nil
  then show ?case by simp
next
  case (Cons e es)
  show ?case
  proof (cases e)
    case Main
    with Cons.IH [OF main_step_live [OF Cons.prems]] show ?thesis by simp
  next
    case (Worker k)
    obtain c q where cp: "cp = (c, q)" by (cases cp) auto
    from Cons.prems cp have "live_inv ini (c, worker_process_step tm k q)"
      using worker_step_live by simp
    from Cons.IH [OF this] Worker cp show ?thesis by simp
  qed
qed

lemma progress:
  assumes "live_inv ini (c, q)" "\<not> returned c"
  shows "\<exists>e. remaining (run tm [e] (c, q)) < remaining (c, q)"
proof -
  note d = live_invD [OF assms(1)]
  have ww: "k < length (workers q) \<Longrightarrow> workers q ! k = (g, w) \<Longrightarrow>
            sum_list (map work_weight ((workers q)[k := (g, w')])) + work_weight (g, w)
            = sum_list (map work_weight (workers q)) + work_weight (g, w')" for k g w w'
    using sum_list_map_update [of k "workers q" work_weight "(g, w')"] by simp
  show ?thesis
  proof (cases "\<exists>x\<in>set (workers q). busy_weight x \<noteq> 0")
    case True
    then obtain k where k: "k < length (workers q)" "busy_weight (workers q ! k) \<noteq> 0"
      by (auto simp: in_set_conv_nth)
    obtain g w where gw: "workers q ! k = (g, w)" by fastforce
    with k(2) obtain m n it where w: "w = Busy m n it" by (cases w) auto
    obtain tid func args kw where it: "it = (tid, func, args, kw)" by (cases it) auto
    from worker_step_cases [OF assms(1) k(1) gw, of tm] w it
    have st: "worker_process_step tm k q
              = put_result (run_task func tm tid g m args kw) (set_worker k (Looping m n) q)"
      by blast
    have "remaining (run tm [Worker k] (c, q)) < remaining (c, q)"
      using st ww [OF k(1) gw, of "Looping m n"] w gw
      by (simp add: remaining_def)
    then show ?thesis by blast
  next
    case False
    then have nb: "\<forall>x\<in>set (workers q). busy_weight x = 0" by blast
    then have bz: "sum_list (map busy_weight (workers q)) = 0" by simp
    show ?thesis
    proof (cases "task_queue q")
      case (Cons x rest)
      with d(6) obtain it where it: "x = Some it" by (cases x) auto
      from d(4) have k: "0 < length (workers q)" by simp
      obtain g w where gw: "workers q ! 0 = (g, w)" by fastforce
      from nb k gw have b0: "busy_weight (g, w) = 0" by (metis nth_mem)
      note cs = worker_step_cases [OF assms(1) k gw, of tm]
      show ?thesis
      proof (cases w)
        case Starting
        with cs have st: "worker_process_step tm 0 q
                          = set_worker 0 (Looping (init_model ini g) 0) q" by blast
        have "remaining (run tm [Worker 0] (c, q)) < remaining (c, q)"
          using st ww [OF k gw, of "Looping (init_model ini g) 0"] Starting gw
          by (simp add: remaining_def)
        then show ?thesis by blast
      next
        case (Looping m n)
        with cs Cons it have st: "worker_process_step tm 0 q
              = set_worker 0 (Busy m (Suc n) it) (q\<lparr> task_queue := rest \<rparr>)" by blast
        have "remaining (run tm [Worker 0] (c, q)) < remaining (c, q)"
          using st ww [OF k gw, of "Busy m (Suc n) it"] Looping gw Cons
          by (simp add: remaining_def)
        then show ?thesis by blast
      next
        case (Busy m n y)
        with b0 show ?thesis by simp
      next
        case Exited
        with cs show ?thesis by blast
      qed
    next
      case Nil
      show ?thesis
      proof (cases "pending c")
        case (Cons x rest)
        from Nil d(3) have "\<not> queue_full q" by (simp add: queue_full_def)
        with Cons have st: "main_step (c, q)
            = (c\<lparr> pending := rest \<rparr>, q\<lparr> task_queue := task_queue q @ [x] \<rparr>)"
          by (simp add: main_step_def)
        have "remaining (run tm [Main] (c, q)) < remaining (c, q)"
          using st Cons Nil by (simp add: remaining_def)
        then show ?thesis by blast
      next
        case pn: Nil
        from assms(2) pn have lt: "length (got c) < want c" by (simp add: returned_def)
        with d(8) bz Nil pn obtain r rest where rq: "result_queue q = r # rest"
          by (cases "result_queue q") auto
        with pn lt have st: "main_step (c, q)
            = (c\<lparr> got := got c @ [r] \<rparr>, q\<lparr> result_queue := rest \<rparr>)"
          by (simp add: main_step_def)
        have "remaining (run tm [Main] (c, q)) < remaining (c, q)"
          using st rq by (simp add: remaining_def)
        then show ?thesis by blast
      qed
    qed
  qed
qed

lemma can_finish:
  "live_inv ini cp \<Longrightarrow> \<exists>more. returned (fst (run tm more cp))"
proof (induction "remaining cp" arbitrary: cp rule: less_induct)
  case less
  obtain c q where cp: "cp = (c, q)" by (cases cp) auto
  show ?case
  proof (cases "returned c")
    case True
    then have "returned (fst (run tm [] cp))" using cp by simp
    then show ?thesis by blast
  next
    case False
    from progress [OF less.prems [unfolded cp] False, of tm] obtain e where
      e: "remaining (run tm [e] cp) < remaining cp" using cp by blast
    have "live_inv ini (run tm [e] cp)" by (rule run_live [OF less.prems])
    from less.hyps [OF e this] obtain more where
      "returned (fst (run tm more (run tm [e] cp)))" by blast
    then have "returned (fst (run tm (e # more) cp))"
      using run_append [of tm "[e]" more cp] by simp
    then show ?thesis by blast
  qed
qed

lemma run_task_success:
  "func args (enhance g m kw) = Inr v \<Longrightarrow>
   is_success_of (run_task func tm tid g m args kw) tid v"
  by (simp add: run_task_def Let_def success_outcome_def is_success_of_def dict_get_def)

lemma run_task_failure:
  "func args (enhance g m kw) = Inl msg \<Longrightarrow>
   is_failure_of (run_task func tm tid g m args kw) tid msg"
  by (simp add: run_task_def Let_def failure_outcome_def is_failure_of_def dict_get_def)

lemma thread_outcome_success:
  "thread_call q func j task = Inr v \<Longrightarrow> is_success_of (thread_outcome q func tm (j, tid, task)) tid v"
  by (simp add: thread_call_def thread_outcome_def run_task_success)

lemma thread_outcome_failure:
  "thread_call q func j task = Inl msg \<Longrightarrow>
   is_failure_of (thread_outcome q func tm (j, tid, task)) tid msg"
  by (simp add: thread_call_def thread_outcome_def run_task_failure)

lemma rel_mset_member_right:
  assumes "rel_mset R M N" "b \<in># N"
  shows "\<exists>a. a \<in># M \<and> R a b"
proof -
  from assms(1) obtain xs ys where xy: "mset xs = M" "mset ys = N" "list_all2 R xs ys"
    by (auto simp: rel_mset_def)
  from assms(2) xy(2) have "b \<in> set ys" by auto
  then obtain i where i: "i < length ys" "ys ! i = b" by (auto simp: in_set_conv_nth)
  from xy(3) i have "R (xs ! i) b" "i < length xs"
    by (auto simp: list_all2_conv_all_nth)
  with xy(1) show ?thesis by (metis nth_mem set_mset_mset)
qed

lemma produced_by_run:
  assumes "produced_by ini tm (tid, func, args, kw) r"
  shows "\<exists>g. r = run_task func tm tid g (init_model ini g) args kw"
  using assms by (auto simp: produced_by_def split: option.splits oval.splits)

lemma produced_by_key: "produced_by ini tm x r \<Longrightarrow> sort_key_of r = fst x"
proof -
  assume a: "produced_by ini tm x r"
  obtain tid func args kw where x: "x = (tid, func, args, kw)" by (cases x) auto
  from produced_by_run [OF a [unfolded x]] x show ?thesis
    by (auto simp: sort_key_run_task)
qed

lemma fresh_clean: "fresh_mp p \<Longrightarrow> init_ok p \<Longrightarrow> clean p"
  by (simp add: fresh_mp_def clean_def)

lemma fresh_live:
  assumes "fresh_mp p" "0 < n_gpus p" "init_ok p" "length xs = n"
  shows "live_inv (init_fn p)
           (\<lparr> pending = map Some xs, got = [], want = n \<rparr>,
            p\<lparr> workers := workers p @ map (\<lambda>g. (g, Starting)) [0..<n_gpus p],
               started := Some True \<rparr>)"
proof -
  from assms(1) have f: "workers p = []" "task_queue p = []" "result_queue p = []"
    "\<not> shutdown_event p" by (simp_all add: fresh_mp_def)
  have al: "list_all (alive_ok (init_fn p)) (map (\<lambda>g. (g, Starting)) [0..<n_gpus p])"
    using assms(3) by (auto simp: init_ok_def list_all_iff split: option.splits)
  have bz: "sum_list (map busy_weight (map (\<lambda>g. (g, Starting)) gs)) = 0" for gs :: "nat list"
    by (induction gs) simp_all
  have ne: "map (\<lambda>g. (g, Starting)) [0..<n_gpus p] \<noteq> []" using assms(2) by simp
  have so: "list_all (\<lambda>x. x \<noteq> None) (map Some ys)" for ys :: "item list"
    by (simp add: list_all_iff del: not_None_eq)
  show ?thesis
    using f al bz ne so assms(2,4) by (intro live_invI) simp_all
qed

lemma execute_mp_extend:
  assumes "fresh_mp p" "0 < n_gpus p" "init_ok p" "tasks \<noteq> []"
    "length tasks \<le> length (given_ids (length tasks) ids)"
    "list_all (\<lambda>a. list_all (\<lambda>b. id_lt a b \<noteq> None)
                 (take (length tasks) (given_ids (length tasks) ids)))
        (take (length tasks) (given_ids (length tasks) ids))"
  shows "\<exists>more outs. fst (execute picks (sched @ more) func tm tasks ids p) = Some (Inr outs)"
proof -
  let ?l = "given_ids (length tasks) ids"
  let ?xs = "submitted func ?l tasks"
  let ?c0 = "\<lparr> pending = map Some ?xs, got = [], want = length tasks \<rparr>"
  let ?p1 = "p\<lparr> workers := workers p @ map (\<lambda>g. (g, Starting)) [0..<n_gpus p],
                  started := Some True \<rparr>"
  from assms(1) have f: "approach p = ''multiprocessing''" "started p = Some False"
    by (simp_all add: fresh_mp_def)
  have lx: "length ?xs = length tasks" using assms(5) by (simp add: submitted_def)
  have st: "start p = Inr ?p1" using f by (simp add: start_def)
  from fresh_live [OF assms(1,2,3) lx] have "live_inv (init_fn p) (?c0, ?p1)" .
  then have "live_inv (init_fn p) (run tm sched (?c0, ?p1))" by (rule run_live)
  from can_finish [OF this, of tm] obtain more where
    m: "returned (fst (run tm more (run tm sched (?c0, ?p1))))" by blast
  obtain c q where r: "run tm (sched @ more) (?c0, ?p1) = (c, q)" by fastforce
  with m have ret: "returned c" by (simp add: run_append)
  let ?e = "execute_multiprocessing (sched @ more) func tm tasks ?l p"
  have e: "?e = (Some (Inr (got c)), q)"
    using f st r ret by (simp add: execute_multiprocessing_def pending_submitted)
  then have fe: "fst ?e = Some (Inr (got c))" by simp
  from execute_mp_clean(1) [OF f(1) fresh_clean [OF assms(1,3)] assms(5) fe]
  have rel: "rel_mset (produced_by (init_fn p) tm) (mset ?xs) (mset (got c))" .
  have key: "sort_key_of r \<in> set (take (length tasks) ?l)" if "r \<in> set (got c)" for r
  proof -
    from that have "r \<in># mset (got c)" by simp
    from rel_mset_member_right [OF rel this] obtain x where
      x: "x \<in> set ?xs" "produced_by (init_fn p) tm x r" by auto
    from produced_by_key [OF x(2)] x(1) have "sort_key_of r \<in> set (map fst ?xs)" by simp
    with submitted_keys [of func ?l tasks] show ?thesis by blast
  qed
  have "\<forall>a\<in>set (got c). \<forall>b\<in>set (got c). id_lt (sort_key_of a) (sort_key_of b) \<noteq> None"
  proof (intro ballI)
    fix a b assume "a \<in> set (got c)" "b \<in> set (got c)"
    from key [OF this(1)] key [OF this(2)] assms(6)
    show "id_lt (sort_key_of a) (sort_key_of b) \<noteq> None" by (simp add: list_all_iff)
  qed
  from py_sorted_same_kind [OF this] obtain ys where ys: "py_sorted (got c) = Inr ys" by blast
  have "fst (execute picks (sched @ more) func tm tasks ids p) = Some (Inr ys)"
    using f(1) assms(4) e ys by (simp add: execute_def Let_def)
  then show ?thesis by blast
qed

lemma threading_records:
  assumes "approach p = ''threading''" "ready p" "0 < n_gpus p" "tasks \<noteq> []"
    "list_all (\<lambda>a. list_all (\<lambda>b. id_lt a b \<noteq> None)
                 (take (length tasks) (given_ids (length tasks) ids)))
        (take (length tasks) (given_ids (length tasks) ids))"
  shows "\<exists>outs. fst (execute picks sched func tm tasks ids p) = Some (Inr outs)
           \<and> mset outs = mset (map (thread_outcome (after_init p) func tm)
                 (List.enumerate 0 (zip (given_ids (length tasks) ids) tasks)))
           \<and> (\<forall>j. j < length tasks \<and> j < length (given_ids (length tasks) ids)
                 \<longrightarrow> thread_outcome (after_init p) func tm
                       (j, given_ids (length tasks) ids ! j, tasks ! j) \<in> set outs)"
proof -
  from execute_threading_sorted [OF assms, of picks sched func tm]
  obtain outs where o: "fst (execute picks sched func tm tasks ids p) = Some (Inr outs)"
    "mset outs = mset (map (thread_outcome (after_init p) func tm)
                 (List.enumerate 0 (zip (given_ids (length tasks) ids) tasks)))" by blast
  have "thread_outcome (after_init p) func tm (j, given_ids (length tasks) ids ! j, tasks ! j)
          \<in> set outs"
    if "j < length tasks" "j < length (given_ids (length tasks) ids)" for j
    using execute_threading_member [OF assms(1,2,3) that o(1)] .
  with o show ?thesis by blast
qed

lemma mp_records:
  assumes "approach p = ''multiprocessing''" "clean p" "tasks \<noteq> []"
    "length tasks \<le> length (given_ids (length tasks) ids)"
    "fst (execute picks sched func tm tasks ids p) = Some (Inr outs)"
    "j < length tasks"
  shows "\<exists>g. run_task func tm (given_ids (length tasks) ids ! j) g (init_model (init_fn p) g)
                (fst (normalize_multiprocessing (tasks ! j)))
                (snd (normalize_multiprocessing (tasks ! j))) \<in> set outs"
proof -
  let ?l = "given_ids (length tasks) ids"
  from execute_mp_outcomes(1) [OF assms(1,2,3,4,5)]
  have rel: "rel_mset (produced_by (init_fn p) tm) (mset (submitted func ?l tasks)) (mset outs)" .
  obtain args kw where nk: "normalize_multiprocessing (tasks ! j) = (args, kw)" by fastforce
  from assms(4,6) have j: "j < length tasks" "j < length ?l" by auto
  from submitted_nth [OF j, of func] nk
  have "(?l ! j, func, args, kw) \<in># mset (submitted func ?l tasks)"
    by (metis nth_mem set_mset_mset)
  from rel_mset_member [OF rel this] obtain r where
    r: "r \<in># mset outs" "produced_by (init_fn p) tm (?l ! j, func, args, kw) r" by blast
  from produced_by_run [OF r(2)] r(1) nk show ?thesis by auto
qed

section \<open>Payload normalization (C4)\<close>

text \<open>
  C4 (as amended). Both engines normalize a payload by the same rules, in this order: a
  dict becomes \<open>((), payload)\<close>; a 2-element \<^emph>\<open>tuple\<close> whose second element is a
  dict becomes \<open>(t[0], t[1])\<close>; any other tuple and every list, also a 2-element list
  ending in a dict, becomes \<open>(seq, {})\<close>; any other value becomes \<open>((value,), {})\<close>.
\<close>

theorem C4_normalize_rules:
  "normalize_threading (VDict d) = (VTuple [], d)
   \<and> normalize_threading (VTuple [a, VDict d]) = (a, d)
   \<and> ((\<forall>a d. xs \<noteq> [a, VDict d]) \<longrightarrow> normalize_threading (VTuple xs) = (VTuple xs, []))
   \<and> normalize_threading (VList xs) = (VList xs, [])
   \<and> (\<not> isinstance_dict v \<and> \<not> isinstance_tuple v \<and> \<not> isinstance_list v
        \<longrightarrow> normalize_threading v = (VTuple [v], []))
   \<and> normalize_multiprocessing task = normalize_threading task"
proof -
  have t: "(\<forall>a d. xs \<noteq> [a, VDict d]) \<longrightarrow> normalize_threading (VTuple xs) = (VTuple xs, [])"
  proof
    assume h: "\<forall>a d. xs \<noteq> [a, VDict d]"
    have "\<not> (length xs = 2 \<and> isinstance_dict (xs ! 1))"
    proof
      assume l: "length xs = 2 \<and> isinstance_dict (xs ! 1)"
      then obtain a b where ab: "xs = [a, b]"
        by (cases xs; cases "tl xs"; auto)
      with l obtain d where "b = VDict d" by (cases b) auto
      with ab h show False by blast
    qed
    then show "normalize_threading (VTuple xs) = (VTuple xs, [])"
      by (auto simp: normalize_threading_def)
  qed
  show ?thesis using t
    by (simp add: normalize_threading_def normalize_multiprocessing_def)
qed

text \<open>The rules at a 3-tuple and at a bare integer.\<close>

theorem C4_normalize_rules_witness:
  "normalize_threading (VTuple [VInt 1, VInt 2, VInt 3]) = (VTuple [VInt 1, VInt 2, VInt 3], [])
   \<and> normalize_threading (VInt 7) = (VTuple [VInt 7], [])
   \<and> normalize_multiprocessing (VInt 7) = normalize_threading (VInt 7)"
  using C4_normalize_rules [of "[]" VNone "[VInt 1, VInt 2, VInt 3]" "VInt 7" "VInt 7"]
  by simp

text \<open>
  C4 as stated fails: the list \<^verbatim>\<open>[1, {}]\<close> is a 2-element sequence whose second
  element is a mapping, yet the code passes the whole list as \<open>args\<close>.
\<close>

theorem C4_list_pair_counterexample:
  "normalize_threading (VList [VInt 1, VDict []]) = (VList [VInt 1, VDict []], [])
   \<and> spec_normalize (VList [VInt 1, VDict []]) = (VInt 1, [])
   \<and> normalize_threading (VList [VInt 1, VDict []]) \<noteq> spec_normalize (VList [VInt 1, VDict []])"
  by (simp add: normalize_threading_def spec_normalize_def is_sequence_def)

section \<open>The convenience function always fails (C10)\<close>

text \<open>
  C10. Whatever its arguments, \<^verbatim>\<open>gpu_map\<close> raises \<^verbatim>\<open>TypeError\<close> when it constructs
  the pool, before any task is executed: it passes seven positional arguments to a
  constructor that takes five.
\<close>

theorem C10_gpu_map_type_error:
  "GPUPool_call device_count
     [n_gpus_arg, approach_arg, init_fn_arg, init_args, init_kwargs, model_size_gb, verbose_arg]
     = Inl TypeError
   \<and> gpu_map device_count picks sched func tm tasks
       approach_arg model_size_gb n_gpus_arg init_fn_arg init_args init_kwargs verbose_arg
     = Some (Inl TypeError)"
  by (simp add: gpu_map_def GPUPool_call_def init_defaults_def)

section \<open>Initializer failure under the shared strategy (C1)\<close>




section \<open>Shutdown (C7)\<close>

text \<open>
  C7. \<^verbatim>\<open>shutdown()\<close> without a prior \<^verbatim>\<open>start()\<close> changes nothing and raises nothing:
  on a pool as constructed, on any threading pool, and on a multiprocessing pool that is
  not started. A second \<^verbatim>\<open>shutdown()\<close> in a row changes nothing and raises nothing.
\<close>

theorem C7_shutdown_idempotent:
  "(GPUPool_init device_count appr ini verb = Inr p \<longrightarrow> shutdown p = Inr p)
   \<and> (approach q = ''threading'' \<longrightarrow> shutdown q = Inr q)
   \<and> (approach q = ''multiprocessing'' \<and> started q = Some False \<longrightarrow> shutdown q = Inr q)
   \<and> (shutdown q = Inr q' \<longrightarrow> shutdown q' = Inr q')
   \<and> (approach q = ''multiprocessing'' \<and> started q = Some True
        \<longrightarrow> (\<exists>q1. shutdown q = Inr q1 \<and> shutdown q1 = Inr q1))"
proof -
  have a: "GPUPool_init device_count appr ini verb = Inr p \<longrightarrow> shutdown p = Inr p"
    by (auto simp: GPUPool_init_def shutdown_def blank_pool_def split: if_splits)
  have b: "approach q = ''threading'' \<longrightarrow> shutdown q = Inr q"
    by (simp add: shutdown_def)
  have c: "approach q = ''multiprocessing'' \<and> started q = Some False \<longrightarrow> shutdown q = Inr q"
    by (simp add: shutdown_def)
  have d: "shutdown q' = Inr q'" if "shutdown q = Inr q'" for q q'
  proof (cases "approach q = ''multiprocessing''")
    case False
    with that show ?thesis by (simp add: shutdown_def)
  next
    case True
    show ?thesis
    proof (cases "started q")
      case None
      with True that show ?thesis by (simp add: shutdown_def)
    next
      case (Some b)
      show ?thesis
      proof (cases b)
        case False
        with Some True that show ?thesis by (simp add: shutdown_def)
      next
        case t: True
        let ?p1 = "put_sentinels (n_gpus q) (q\<lparr> shutdown_event := True \<rparr>)"
        from t Some True that
        have q': "q' = ?p1\<lparr> workers := map (\<lambda>(g, w). (g, Exited)) (workers ?p1),
                               started := Some False \<rparr>"
          by (simp add: shutdown_def Let_def)
        have "approach ?p1 = approach q" using put_sentinels_fields by simp
        with True q' have "approach q' = ''multiprocessing''" "started q' = Some False"
          by simp_all
        then show ?thesis by (simp add: shutdown_def)
      qed
    qed
  qed
  have e: "approach q = ''multiprocessing'' \<and> started q = Some True
        \<longrightarrow> (\<exists>q1. shutdown q = Inr q1 \<and> shutdown q1 = Inr q1)"
  proof
    assume h: "approach q = ''multiprocessing'' \<and> started q = Some True"
    then obtain q1 where "shutdown q = Inr q1" by (simp add: shutdown_def Let_def)
    with d [OF this] show "\<exists>q1. shutdown q = Inr q1 \<and> shutdown q1 = Inr q1" by blast
  qed
  from a b c d e show ?thesis by blast
qed

text \<open>A threading pool, a multiprocessing pool never started, and one that was started.\<close>

theorem C7_shutdown_idempotent_witness:
  "shutdown (ex_threading_pool 2 None) = Inr (ex_threading_pool 2 None)
   \<and> shutdown (ex_mp_pool 2 None) = Inr (ex_mp_pool 2 None)
   \<and> (\<exists>q1. shutdown ((ex_mp_pool 2 None)\<lparr> started := Some True \<rparr>) = Inr q1
            \<and> shutdown q1 = Inr q1)"
  using C7_shutdown_idempotent
    [of 2 "''threading''" None False "ex_threading_pool 2 None"
        "(ex_mp_pool 2 None)\<lparr> started := Some True \<rparr>"]
    C7_shutdown_idempotent
    [of 2 "''multiprocessing''" None False "ex_mp_pool 2 None" "ex_mp_pool 2 None"]
  by (simp add: ex_threading_pool_def ex_mp_pool_def GPUPool_init_def blank_pool_def)

section \<open>Ordering of the returned list (C6)\<close>

text \<open>
  C6 (as amended). Every list \<^verbatim>\<open>execute\<close> returns, under either strategy, is in
  ascending order of task id. Under the threading strategy: when the task ids in use are
  mutually comparable, \<^verbatim>\<open>execute\<close> returns such a list; when two of them are not
  comparable (an int and a string), \<^verbatim>\<open>sorted\<close> raises \<^verbatim>\<open>TypeError\<close> and
  \<^verbatim>\<open>execute\<close> returns no list.
\<close>

theorem C6_sorted_or_type_error:
  "(fst (execute picks sched func tm tasks ids p) = Some (Inr outs) \<longrightarrow> ascending outs)
   \<and> (approach q = ''threading'' \<and> ready q \<and> 0 < n_gpus q \<and> ts \<noteq> []
        \<and> list_all (\<lambda>a. list_all (\<lambda>b. id_lt a b \<noteq> None) (take (length ts) l))
             (take (length ts) l)
        \<longrightarrow> (\<exists>sorted_outs. fst (execute picks sched func tm ts (Some l) q) = Some (Inr sorted_outs)
                \<and> ascending sorted_outs))
   \<and> (approach q = ''threading'' \<and> ready q \<and> 0 < n_gpus q
        \<and> i < length ts \<and> j < length ts \<and> i < length l \<and> j < length l
        \<and> id_lt (l ! i) (l ! j) = None
        \<longrightarrow> fst (execute picks sched func tm ts (Some l) q) = Some (Inl TypeError))"
proof (intro conjI impI)
  assume "fst (execute picks sched func tm tasks ids p) = Some (Inr outs)"
  then show "ascending outs" by (rule execute_sorted)
next
  assume h: "approach q = ''threading'' \<and> ready q \<and> 0 < n_gpus q \<and> ts \<noteq> []
        \<and> list_all (\<lambda>a. list_all (\<lambda>b. id_lt a b \<noteq> None) (take (length ts) l))
             (take (length ts) l)"
  then show "\<exists>sorted_outs. fst (execute picks sched func tm ts (Some l) q) = Some (Inr sorted_outs)
                \<and> ascending sorted_outs"
    using execute_threading_sorted [of q ts "Some l" picks sched func tm]
    by (auto simp: given_ids_def)
next
  assume h: "approach q = ''threading'' \<and> ready q \<and> 0 < n_gpus q
        \<and> i < length ts \<and> j < length ts \<and> i < length l \<and> j < length l
        \<and> id_lt (l ! i) (l ! j) = None"
  let ?en = "List.enumerate 0 (zip l ts)"
  let ?res = "as_completed picks (map (thread_outcome (after_init q) func tm) ?en)"
  from h have ne: "ts \<noteq> []" by auto
  from h ne have ex: "fst (execute picks sched func tm ts (Some l) q) = Some (py_sorted ?res)"
    using execute_on_threading [of q ts picks sched func tm "Some l"]
    by (simp add: given_ids_def)
  let ?a = "thread_outcome (after_init q) func tm (i, l ! i, ts ! i)"
  let ?b = "thread_outcome (after_init q) func tm (j, l ! j, ts ! j)"
  from h have a: "?a \<in> set ?res" and b: "?b \<in> set ?res"
    using thread_outcome_in_results by simp_all
  from h have "id_lt (sort_key_of ?a) (sort_key_of ?b) = None"
    by (simp add: sort_key_thread_outcome)
  from py_sorted_mixed [OF a b this] ex
  show "fst (execute picks sched func tm ts (Some l) q) = Some (Inl TypeError)" by simp
qed

text \<open>Default ids, integer ids out of order, and a string id next to an integer id.\<close>

theorem C6_sorted_or_type_error_witness:
  "ascending [success_outcome (IdInt 0) 0 0 (VInt 1), success_outcome (IdInt 1) 0 0 (VInt 4)]
   \<and> (\<exists>sorted_outs. fst (execute [1] [] ex_square ex_timer [VInt 1, VInt 2]
                             (Some [IdInt 5, IdInt 3]) (ex_threading_pool 1 None))
                       = Some (Inr sorted_outs) \<and> ascending sorted_outs)
   \<and> fst (execute [] [] ex_square ex_timer [VInt 1, VInt 2] (Some [IdStr ''x'', IdInt 3])
            (ex_threading_pool 2 None)) = Some (Inl TypeError)"
proof -
  have h1: "fst (execute [] [] ex_square ex_timer [VInt 1, VInt 2] None (ex_threading_pool 1 None))
            = Some (Inr [success_outcome (IdInt 0) 0 0 (VInt 1),
                         success_outcome (IdInt 1) 0 0 (VInt 4)])"
    by code_simp
  have h2: "approach (ex_threading_pool 1 None) = ''threading'' \<and> ready (ex_threading_pool 1 None)
        \<and> 0 < n_gpus (ex_threading_pool 1 None) \<and> [VInt 1, VInt 2] \<noteq> []
        \<and> list_all (\<lambda>a. list_all (\<lambda>b. id_lt a b \<noteq> None)
                      (take (length [VInt 1, VInt 2]) [IdInt 5, IdInt 3]))
             (take (length [VInt 1, VInt 2]) [IdInt 5, IdInt 3])"
    by code_simp
  have h3: "approach (ex_threading_pool 2 None) = ''threading'' \<and> ready (ex_threading_pool 2 None)
        \<and> 0 < n_gpus (ex_threading_pool 2 None)
        \<and> 0 < length [VInt 1, VInt 2] \<and> 1 < length [VInt 1, VInt 2]
        \<and> 0 < length [IdStr ''x'', IdInt 3] \<and> 1 < length [IdStr ''x'', IdInt 3]
        \<and> id_lt ([IdStr ''x'', IdInt 3] ! 0) ([IdStr ''x'', IdInt 3] ! 1) = None"
    by code_simp
  from C6_sorted_or_type_error
         [where picks = "[]" and sched = "[]" and func = ex_square and tm = ex_timer
            and tasks = "[VInt 1, VInt 2]" and ids = None and p = "ex_threading_pool 1 None"
            and outs = "[success_outcome (IdInt 0) 0 0 (VInt 1),
                         success_outcome (IdInt 1) 0 0 (VInt 4)]"]
       h1
  have a: "ascending [success_outcome (IdInt 0) 0 0 (VInt 1),
                      success_outcome (IdInt 1) 0 0 (VInt 4)]" by blast
  from C6_sorted_or_type_error
         [where q = "ex_threading_pool 1 None" and ts = "[VInt 1, VInt 2]"
            and l = "[IdInt 5, IdInt 3]" and picks = "[1]" and sched = "[]"
            and func = ex_square and tm = ex_timer] h2
  have b: "\<exists>sorted_outs. fst (execute [1] [] ex_square ex_timer [VInt 1, VInt 2]
                             (Some [IdInt 5, IdInt 3]) (ex_threading_pool 1 None))
                       = Some (Inr sorted_outs) \<and> ascending sorted_outs" by blast
  from C6_sorted_or_type_error
         [where q = "ex_threading_pool 2 None" and ts = "[VInt 1, VInt 2]"
            and l = "[IdStr ''x'', IdInt 3]" and picks = "[]" and sched = "[]"
            and func = ex_square and tm = ex_timer and i = 0 and j = 1] h3
  have c: "fst (execute [] [] ex_square ex_timer [VInt 1, VInt 2] (Some [IdStr ''x'', IdInt 3])
            (ex_threading_pool 2 None)) = Some (Inl TypeError)" by blast
  from a b c show ?thesis by blast
qed

text \<open>
  C6 as stated fails: with the task ids \<^verbatim>\<open>[1, 'a']\<close>, which are not comparable, no
  ordered list is returned; the call raises \<^verbatim>\<open>TypeError\<close>.
\<close>

theorem C6_mixed_ids_counterexample:
  "fst (execute [] [] ex_square ex_timer [VInt 1, VInt 2] (Some [IdInt 1, IdStr ''a''])
          (ex_threading_pool 1 None))
   = Some (Inl TypeError)"
  by code_simp

section \<open>Device assignment (C2)\<close>




section \<open>One Outcome per task (C3)\<close>




section \<open>Fields of an Outcome (C5)\<close>

text \<open>
  C5 (as amended). Every Outcome in a list returned by \<^verbatim>\<open>execute\<close>, under either
  strategy, has a success flag, the task id and the device id. A successful one also has
  the elapsed duration and the produced value, and no error description; a failed one
  has the error description, and neither an elapsed duration nor a value. (The result
  queue of the pool is assumed to hold only records of these shapes, as it does on a new
  pool.)
\<close>

theorem C5_outcome_fields:
  assumes "list_all well_shaped (result_queue p)"
    "fst (execute picks sched func tm tasks ids p) = Some (Inr outs)" "r \<in> set outs"
  shows "has_key r ''success'' \<and> has_key r ''task_id'' \<and> has_key r ''gpu_id''
         \<and> ((success_shaped r \<and> has_key r ''processing_time'' \<and> has_key r ''result''
               \<and> \<not> has_key r ''error'')
             \<or> (failure_shaped r \<and> has_key r ''error'' \<and> \<not> has_key r ''processing_time''
                 \<and> \<not> has_key r ''result''))"
proof -
  have "well_shaped r"
  proof (cases "tasks = []")
    case True
    with assms(2,3) show ?thesis by (simp add: execute_def)
  next
    case False
    let ?l = "given_ids (length tasks) ids"
    show ?thesis
    proof (cases "approach p = ''threading''")
      case True
      obtain a b where ab: "execute_threading picks func tm tasks ?l p = (a, b)" by fastforce
      with assms(2) False True obtain results where
        a: "a = Inr results" and s: "py_sorted results = Inr outs"
        by (auto simp: execute_def Let_def split: sum.splits)
      from ab a have "fst (execute_threading picks func tm tasks ?l p) = Inr results" by simp
      from execute_threading_shaped [OF this] py_sorted_set [OF s] assms(3)
      show ?thesis by (simp add: list_all_iff)
    next
      case nt: False
      obtain a b where ab: "execute_multiprocessing sched func tm tasks ?l p = (a, b)"
        by fastforce
      with assms(2) False nt obtain results where
        a: "a = Some (Inr results)" and s: "py_sorted results = Inr outs"
        by (auto simp: execute_def Let_def split: option.splits sum.splits)
      from ab a have "fst (execute_multiprocessing sched func tm tasks ?l p) = Some (Inr results)"
        by simp
      from execute_mp_shaped [OF assms(1) this] py_sorted_set [OF s] assms(3)
      show ?thesis by (simp add: list_all_iff)
    qed
  qed
  then show ?thesis
    by (auto simp: well_shaped_def success_shaped_def failure_shaped_def has_key_def)
qed

text \<open>The record of a task whose work function raised.\<close>

theorem C5_outcome_fields_witness:
  "failure_shaped (failure_outcome (IdInt 1) 0 ''negative input'')
   \<and> has_key (failure_outcome (IdInt 1) 0 ''negative input'') ''error''
   \<and> \<not> has_key (failure_outcome (IdInt 1) 0 ''negative input'') ''processing_time''"
proof -
  let ?P = "ex_threading_pool 1 None"
  let ?R = "failure_outcome (IdInt 1) 0 ''negative input''"
  have h1: "list_all well_shaped (result_queue ?P)" by code_simp
  have h2: "fst (execute [] [] ex_positive ex_timer [VInt 1, VInt (-1)] None ?P)
            = Some (Inr [success_outcome (IdInt 0) 0 0 (VInt 1), ?R])" by code_simp
  have h3: "?R \<in> set [success_outcome (IdInt 0) 0 0 (VInt 1), ?R]" by simp
  have n: "\<not> success_shaped ?R" by code_simp
  from C5_outcome_fields [OF h1 h2 h3] n show ?thesis by blast
qed

text \<open>
  C5 as stated fails: the Outcome of a task whose work function raised has no
  \<^verbatim>\<open>processing_time\<close> entry.
\<close>

theorem C5_no_duration_counterexample:
  "fst (execute [] [] ex_positive ex_timer [VInt (-1)] None (ex_threading_pool 1 None))
   = Some (Inr [[(''success'', OBool False), (''task_id'', OId (IdInt 0)), (''gpu_id'', ODev 0),
                 (''error'', OErr ''negative input'')]])
   \<and> \<not> has_key [(''success'', OBool False), (''task_id'', OId (IdInt 0)), (''gpu_id'', ODev 0),
                 (''error'', OErr ''negative input'')] ''processing_time''"
  by code_simp

section \<open>A failing task does not affect the others (C8)\<close>




section \<open>Initializer failure under the isolated strategy (C9)\<close>


end
